theory Spec2Isabelle
  imports Complex_Main
begin

section \<open>Dual-tour TSP by branch and cut: the model of the sources\<close>

text \<open>
  A shallow embedding of \<^verbatim>\<open>modelo/tour.hpp\<close>, \<^verbatim>\<open>modelo/graph.hpp\<close> and
  \<^verbatim>\<open>modelo/vertex.hpp\<close>. Conventions:

  \<^item> \<^verbatim>\<open>size_t\<close> and \<^verbatim>\<open>unsigned\<close> counters are \<open>nat\<close>. Every counter of these files runs
    between 0 and the number \<open>n\<close> of vertices, and the \<open>n * n\<close> items of a matrix exist in
    memory only for \<open>n\<close> far below \<open>2 ^ 32\<close>, so no counter wraps.
  \<^item> \<^verbatim>\<open>double\<close> coordinates are the type parameter \<open>'c\<close> of a vertex: nothing here computes
    with them. Doubles that are only stored or compared with a constant (bounds, objective
    coefficients, right-hand sides, the value of a variable) are \<open>real\<close>.
  \<^item> An exception is the left summand of a result (\<open>Inl\<close>); a loop that might not return
    yields an \<open>option\<close>, with \<open>None\<close> for not returning.
\<close>

subsection \<open>\<^verbatim>\<open>utils::matrix\<close> (tour.hpp)\<close>

text \<open>
  A flat buffer of \<open>len * len\<close> items. \<^verbatim>\<open>operator[]\<close> returns the span of \<open>size()\<close> items that
  starts at \<open>idx * size()\<close>; writing through the span writes the buffer.
  \<open>matrix_new\<close> is the constructor, with the value a default-constructed item has.
\<close>

record 'a matrix =
  buffer :: "'a list"
  len :: nat

definition matrix_size :: "'a matrix \<Rightarrow> nat" where
  "matrix_size m = len m"

definition row :: "'a matrix \<Rightarrow> nat \<Rightarrow> 'a list" where
  "row m idx = take (matrix_size m) (drop (idx * matrix_size m) (buffer m))"

definition row_update :: "'a matrix \<Rightarrow> nat \<Rightarrow> nat \<Rightarrow> 'a \<Rightarrow> 'a matrix" where
  "row_update m idx j x = m\<lparr>buffer := (buffer m)[idx * matrix_size m + j := x]\<rparr>"

definition matrix_new :: "nat \<Rightarrow> 'a \<Rightarrow> 'a matrix" where
  "matrix_new n d = \<lparr>buffer = replicate (n * n) d, len = n\<rparr>"

subsection \<open>\<^verbatim>\<open>vertex\<close> (vertex.hpp)\<close>

text \<open>
  The field \<^verbatim>\<open>id\<close> is \<open>vertex_id\<close>. \<open>next_id\<close> is the static counter (it returns the count and
  the incremented count), \<open>vertex_new\<close> the public constructor that draws a fresh id from it,
  \<open>vertex_default\<close> the default constructor, whose id is \<^verbatim>\<open>SIZE_MAX\<close>.
\<close>

record 'c vertex =
  vertex_id :: nat
  x1 :: 'c
  y1 :: 'c
  x2 :: 'c
  y2 :: 'c

definition SIZE_MAX :: nat where
  "SIZE_MAX = 2 ^ 64 - 1"

definition next_id :: "nat \<Rightarrow> nat \<times> nat" where
  "next_id counter = (counter, counter + 1)"

definition vertex_new :: "nat \<Rightarrow> 'c \<Rightarrow> 'c \<Rightarrow> 'c \<Rightarrow> 'c \<Rightarrow> 'c vertex \<times> nat" where
  "vertex_new counter a b c d =
     (let (i, counter') = next_id counter
      in (\<lparr>vertex_id = i, x1 = a, y1 = b, x2 = c, y2 = d\<rparr>, counter'))"

definition vertex_default :: "('c::zero) vertex" where
  "vertex_default = \<lparr>vertex_id = SIZE_MAX, x1 = 0, y1 = 0, x2 = 0, y2 = 0\<rparr>"

subsection \<open>\<^verbatim>\<open>vertex::read\<close> (vertex.hpp)\<close>

text \<open>
  \<open>invalid_file\<close> carries the file name and the reason of its message. The file is the list
  of lines \<^verbatim>\<open>std::getline\<close> yields (none for a missing or empty file). Extracting four
  doubles from a line is the C++ library's work and is the parameter \<open>get4\<close>;
  \<open>extract_vertex\<close> is \<^verbatim>\<open>operator>>\<close>, which assigns the four coordinates and nothing else
  (on a failed extraction the vertex is thrown away, so its fields are left as they were).
  \<open>read_lines\<close> is the \<^verbatim>\<open>while\<close> loop of \<^verbatim>\<open>read\<close>.
\<close>

datatype invalid_file = Invalid_file string string

definition is_empty_or_missing :: "string \<Rightarrow> invalid_file" where
  "is_empty_or_missing filename = Invalid_file filename ''is empty or missing''"

definition contains_invalid_data :: "string \<Rightarrow> invalid_file" where
  "contains_invalid_data filename = Invalid_file filename ''contains invalid data''"

definition extract_vertex ::
  "(string \<Rightarrow> ('c \<times> 'c \<times> 'c \<times> 'c) option) \<Rightarrow> string \<Rightarrow> 'c vertex \<Rightarrow> bool \<times> 'c vertex" where
  "extract_vertex get4 line v =
     (case get4 line of
        Some (a, b, c, d) \<Rightarrow> (True, v\<lparr>x1 := a, y1 := b, x2 := c, y2 := d\<rparr>)
      | None \<Rightarrow> (False, v))"

fun read_lines ::
  "(string \<Rightarrow> ('c \<times> 'c \<times> 'c \<times> 'c) option) \<Rightarrow> string \<Rightarrow> string list \<Rightarrow> ('c::zero) vertex list
     \<Rightarrow> invalid_file + 'c vertex list" where
  "read_lines get4 filename [] vs = Inr vs"
| "read_lines get4 filename (line # rest) vs =
     (let new_vertex = vertex_default
      in case extract_vertex get4 line new_vertex of
           (True, v) \<Rightarrow> read_lines get4 filename rest (vs @ [v])
         | (False, v) \<Rightarrow> Inl (contains_invalid_data filename))"

definition read ::
  "(string \<Rightarrow> ('c \<times> 'c \<times> 'c \<times> 'c) option) \<Rightarrow> string \<Rightarrow> string list
     \<Rightarrow> invalid_file + ('c::zero) vertex list" where
  "read get4 filename lines =
     (case read_lines get4 filename lines [] of
        Inl e \<Rightarrow> Inl e
      | Inr vs \<Rightarrow> if length vs \<le> 0 then Inl (is_empty_or_missing filename) else Inr vs)"

subsection \<open>\<^verbatim>\<open>tour::iter_tours\<close> and \<^verbatim>\<open>tour::min_sub_tour\<close> (tour.hpp)\<close>

text \<open>
  A tour is a \<^verbatim>\<open>std::vector<unsigned>\<close> of vertex positions. The iterator holds the \<open>seen\<close>
  bits, the vertex list and the adjacency matrix. \<open>new_node_from\<close> and \<open>best_next_from\<close> are
  the \<^verbatim>\<open>for\<close> loops of \<^verbatim>\<open>new_node\<close> and \<^verbatim>\<open>best_next\<close>, from the current counter on;
  \<open>next_tour_loop\<close> is the loop of \<^verbatim>\<open>next_tour(unsigned)\<close>, whose third argument is the
  counter \<^verbatim>\<open>len\<close> and whose fourth is the tour built so far. \<open>next_tour\<close> returns the tour
  with the iterator as the walk left it. \<open>tours_loop\<close> is the \<^verbatim>\<open>while\<close> loop of
  \<^verbatim>\<open>min_sub_tour\<close>: it ends only when the iterator runs dry, so it is a partial function
  and \<open>min_sub_tour\<close> returns an \<open>option\<close>.
\<close>

type_synonym tour = "nat list"

record 'c iter_tours =
  seen :: "bool list"
  vertices :: "'c vertex list"
  solution :: "bool matrix"

definition iter_tours_init :: "'c vertex list \<Rightarrow> bool matrix \<Rightarrow> 'c iter_tours" where
  "iter_tours_init vs sol = \<lparr>seen = replicate (length vs) False, vertices = vs, solution = sol\<rparr>"

definition count :: "'c iter_tours \<Rightarrow> nat" where
  "count it = length (vertices it)"

function new_node_from :: "'c iter_tours \<Rightarrow> nat \<Rightarrow> nat option" where
  "new_node_from it node =
     (if node < count it
      then (if \<not> seen it ! node then Some node else new_node_from it (Suc node))
      else None)"
  by pat_completeness auto
termination
  by (relation "measure (\<lambda>(it, node). count it - node)") auto

definition new_node :: "'c iter_tours \<Rightarrow> nat option" where
  "new_node it = new_node_from it 0"

function best_next_from :: "'c iter_tours \<Rightarrow> bool list \<Rightarrow> nat \<Rightarrow> nat option" where
  "best_next_from it sol v =
     (if v < count it
      then (if sol ! v \<and> \<not> seen it ! v then Some v else best_next_from it sol (Suc v))
      else None)"
  by pat_completeness auto
termination
  by (relation "measure (\<lambda>(it, sol, v). count it - v)") auto

definition best_next :: "'c iter_tours \<Rightarrow> nat \<Rightarrow> nat option" where
  "best_next it u = best_next_from it (row (solution it) u) 0"

fun next_tour_loop :: "'c iter_tours \<Rightarrow> nat \<Rightarrow> nat \<Rightarrow> tour \<Rightarrow> tour \<times> 'c iter_tours" where
  "next_tour_loop it node 0 walked = (walked, it)"
| "next_tour_loop it node (Suc n) walked =
     (let it' = it\<lparr>seen := (seen it)[node := True]\<rparr>;
          walked' = walked @ [node]
      in case best_next it' node of
           Some next \<Rightarrow> next_tour_loop it' next n walked'
         | None \<Rightarrow> (walked', it'))"

definition next_tour_at :: "'c iter_tours \<Rightarrow> nat \<Rightarrow> tour \<times> 'c iter_tours" where
  "next_tour_at it node = next_tour_loop it node (count it) []"

definition next_tour :: "'c iter_tours \<Rightarrow> (tour \<times> 'c iter_tours) option" where
  "next_tour it =
     (case new_node it of
        Some node \<Rightarrow> Some (next_tour_at it node)
      | None \<Rightarrow> None)"

partial_function (option) tours_loop :: "'c iter_tours \<Rightarrow> tour \<Rightarrow> tour option" where
  "tours_loop it min_tour =
     (case next_tour it of
        Some (t, it') \<Rightarrow> tours_loop it' (if length t < length min_tour then t else min_tour)
      | None \<Rightarrow> Some min_tour)"

definition min_sub_tour :: "'c vertex list \<Rightarrow> bool matrix \<Rightarrow> tour option" where
  "min_sub_tour vs sol =
     (case next_tour (iter_tours_init vs sol) of
        Some (first, tours) \<Rightarrow> tours_loop tours first
      | None \<Rightarrow> Some [])"

declare tours_loop.simps [code]
declare new_node_from.simps [simp del]
declare best_next_from.simps [simp del]

subsection \<open>The solver engine as \<^verbatim>\<open>graph\<close> uses it (graph.hpp)\<close>

text \<open>
  A \<^verbatim>\<open>GRBVar\<close> is a handle: \<open>Var k\<close> is the \<open>k\<close>-th variable added to the model, \<open>Null_var\<close>
  the default-constructed handle. A \<^verbatim>\<open>GRBLinExpr\<close> built by \<^verbatim>\<open>expr += var\<close> is the list of
  its variables, each with coefficient one. The model records the variables and linear
  constraints added to it. \<open>optimized\<close> holds what the attribute queries return once
  \<^verbatim>\<open>optimize()\<close> is back, and the time \<^verbatim>\<open>elapsed()\<close> measured.
\<close>

datatype GRBVar = Null_var | Var nat

datatype var_type = GRB_CONTINUOUS | GRB_BINARY | GRB_INTEGER

datatype sense = GRB_LESS_EQUAL | GRB_EQUAL | GRB_GREATER_EQUAL

record var_attrs =
  lb :: real
  ub :: real
  obj :: real
  vtype :: var_type
  varname :: string

record lin_constr =
  expr :: "GRBVar list"
  lin_sense :: sense
  rhs :: real

record GRBModel =
  model_vars :: "var_attrs list"
  model_constrs :: "lin_constr list"

record optimized =
  IntAttr_SolCount :: int
  DoubleAttr_X :: "nat \<Rightarrow> real"
  total_time :: real

definition addVar ::
  "GRBModel \<Rightarrow> real \<Rightarrow> real \<Rightarrow> real \<Rightarrow> var_type \<Rightarrow> string \<Rightarrow> GRBVar \<times> GRBModel" where
  "addVar model l u c t name =
     (Var (length (model_vars model)),
      model\<lparr>model_vars :=
        model_vars model @ [\<lparr>lb = l, ub = u, obj = c, vtype = t, varname = name\<rparr>]\<rparr>)"

definition addConstr :: "GRBModel \<Rightarrow> GRBVar list \<Rightarrow> sense \<Rightarrow> real \<Rightarrow> GRBModel" where
  "addConstr model e s r =
     model\<lparr>model_constrs := model_constrs model @ [\<lparr>expr = e, lin_sense = s, rhs = r\<rparr>]\<rparr>"

subsection \<open>\<^verbatim>\<open>graph\<close>: building the model (graph.hpp)\<close>

text \<open>
  \<open>decimal\<close> prints a \<^verbatim>\<open>size_t\<close> as the stream does. The cost \<^verbatim>\<open>u.cost1(v)\<close> is computed in
  double arithmetic; the model builder takes the cost function as the parameter \<open>cost\<close>.
  \<open>add_vars_body\<close> is the body of the inner loop of \<^verbatim>\<open>add_vars\<close>, on the matrix and the
  model. \<open>graph_new\<close> is the constructor: the members are initialised in the order model,
  vertices, vars, and the body adds the degree constraints.
\<close>

fun decimal :: "nat \<Rightarrow> string" where
  "decimal n =
     (if n < 10 then [char_of (48 + n)]
      else decimal (n div 10) @ [char_of (48 + n mod 10)])"

declare decimal.simps [simp del]

definition add_edge ::
  "('c vertex \<Rightarrow> 'c vertex \<Rightarrow> real) \<Rightarrow> GRBModel \<Rightarrow> 'c vertex \<Rightarrow> 'c vertex \<Rightarrow> GRBVar \<times> GRBModel" where
  "add_edge cost model u v =
     (let name = ''x_'' @ decimal (vertex_id u) @ ''_'' @ decimal (vertex_id v);
          objective = cost u v
      in addVar model 0 1 objective GRB_BINARY name)"

definition add_vars_body ::
  "('c vertex \<Rightarrow> 'c vertex \<Rightarrow> real) \<Rightarrow> 'c vertex list \<Rightarrow> nat \<Rightarrow> nat
     \<Rightarrow> GRBVar matrix \<times> GRBModel \<Rightarrow> GRBVar matrix \<times> GRBModel" where
  "add_vars_body cost vs u v =
     (\<lambda>(vars, model).
        let (x_uv, model') = add_edge cost model (vs ! u) (vs ! v)
        in (row_update (row_update vars u v x_uv) v u x_uv, model'))"

definition add_vars ::
  "('c vertex \<Rightarrow> 'c vertex \<Rightarrow> real) \<Rightarrow> 'c vertex list \<Rightarrow> GRBModel \<Rightarrow> GRBVar matrix \<times> GRBModel" where
  "add_vars cost vs model =
     fold (\<lambda>u. fold (add_vars_body cost vs u) [Suc u..<length vs])
       [0..<length vs] (matrix_new (length vs) Null_var, model)"

definition add_constraint_deg_2 :: "nat \<Rightarrow> GRBVar matrix \<Rightarrow> GRBModel \<Rightarrow> GRBModel" where
  "add_constraint_deg_2 n vars model =
     fold (\<lambda>u model.
             let e = fold (\<lambda>v e. if u \<noteq> v then e @ [row vars u ! v] else e) [0..<n] []
             in addConstr model e GRB_EQUAL 2)
       [0..<n] model"

record 'c graph =
  model :: GRBModel
  vertices_g :: "'c vertex list"
  vars :: "GRBVar matrix"

definition graph_new :: "('c vertex \<Rightarrow> 'c vertex \<Rightarrow> real) \<Rightarrow> 'c vertex list \<Rightarrow> 'c graph" where
  "graph_new cost vs =
     (let (xs, m) = add_vars cost vs \<lparr>model_vars = [], model_constrs = []\<rparr>
      in \<lparr>model = add_constraint_deg_2 (length vs) xs m, vertices_g = vs, vars = xs\<rparr>)"

definition order :: "'c graph \<Rightarrow> nat" where
  "order g = length (vertices_g g)"

subsection \<open>\<^verbatim>\<open>graph\<close>: reading the result (graph.hpp, main.cpp)\<close>

text \<open>
  \<open>invalid_solution\<close> has the vertices, the optional subtour and the message;
  \<open>zero_solutions\<close> and \<open>incomplete_tour\<close> are its two factories. \<open>solve\<close> is what
  \<^verbatim>\<open>graph::solve\<close> does once \<^verbatim>\<open>optimize()\<close> has returned, \<open>selected\<close> the lambda that
  \<^verbatim>\<open>graph::tour\<close> passes on (a variable is selected when its value exceeds one half; no
  variable stands behind a default-constructed handle), \<open>graph_tour\<close> and \<open>graph_solution\<close>
  are \<^verbatim>\<open>graph::tour\<close> and \<^verbatim>\<open>graph::solution\<close>. \<open>run\<close> is the order of \<^verbatim>\<open>program::run\<close>:
  \<^verbatim>\<open>solve()\<close>, then \<^verbatim>\<open>solution()\<close>, an exception of the first ending the run.
\<close>

record 'c invalid_solution =
  vertices_e :: "'c vertex list"
  subtour :: "tour option"
  what :: string

definition zero_solutions :: "'c vertex list \<Rightarrow> 'c invalid_solution" where
  "zero_solutions vs =
     \<lparr>vertices_e = vs, subtour = None, what = ''No integral solution could be found.''\<rparr>"

definition incomplete_tour :: "'c vertex list \<Rightarrow> tour \<Rightarrow> 'c invalid_solution" where
  "incomplete_tour vs t =
     \<lparr>vertices_e = vs, subtour = Some t,
      what = ''Solution found, but leads to incomplete tour.''\<rparr>"

definition solution_count :: "optimized \<Rightarrow> int" where
  "solution_count res = IntAttr_SolCount res"

definition solve :: "'c graph \<Rightarrow> optimized \<Rightarrow> 'c invalid_solution + real" where
  "solve g res =
     (if solution_count res \<le> 0 then Inl (zero_solutions (vertices_g g))
      else Inr (total_time res))"

definition selected :: "'c graph \<Rightarrow> optimized \<Rightarrow> nat \<Rightarrow> nat \<Rightarrow> bool" where
  "selected g res i j =
     (case row (vars g) i ! j of Var k \<Rightarrow> DoubleAttr_X res k > 0.5 | Null_var \<Rightarrow> False)"

text \<open>
  Modelled from the spec: the snapshot that \<^verbatim>\<open>utils::min_sub_tour\<close> takes. That function,
  which \<^verbatim>\<open>graph::tour\<close> calls, is declared in \<^verbatim>\<open>elimination.hpp\<close>, a file that is not
  among the sources. The spec (4.5, 4.6) says that the values of the variables are snapshot
  into a boolean adjacency matrix; diagonal entries are never instantiated (3), so the
  snapshot leaves the diagonal false.
\<close>

definition snapshot :: "nat \<Rightarrow> (nat \<Rightarrow> nat \<Rightarrow> bool) \<Rightarrow> bool matrix" where
  "snapshot n edge =
     \<lparr>buffer = concat (map (\<lambda>u. map (\<lambda>v. u \<noteq> v \<and> edge u v) [0..<n]) [0..<n]), len = n\<rparr>"

text \<open>
  Modelled from the spec: \<^verbatim>\<open>utils::min_sub_tour\<close> of \<^verbatim>\<open>elimination.hpp\<close>, not among the
  sources. The spec (4.5, 4.6) says that Tour Extraction, which is \<^verbatim>\<open>tour::min_sub_tour\<close>
  above, runs on the snapshot.
\<close>

definition utils_min_sub_tour :: "'c vertex list \<Rightarrow> (nat \<Rightarrow> nat \<Rightarrow> bool) \<Rightarrow> tour option" where
  "utils_min_sub_tour vs edge = min_sub_tour vs (snapshot (length vs) edge)"

definition graph_tour :: "'c graph \<Rightarrow> optimized \<Rightarrow> ('c invalid_solution + tour) option" where
  "graph_tour g res =
     (case utils_min_sub_tour (vertices_g g) (selected g res) of
        None \<Rightarrow> None
      | Some min_tour \<Rightarrow>
          Some (if length min_tour \<noteq> order g
                then Inl (incomplete_tour (vertices_g g) min_tour)
                else Inr min_tour))"

definition graph_solution ::
  "'c graph \<Rightarrow> optimized \<Rightarrow> ('c invalid_solution + 'c vertex list) option" where
  "graph_solution g res =
     (case graph_tour g res of
        None \<Rightarrow> None
      | Some (Inl e) \<Rightarrow> Some (Inl e)
      | Some (Inr t) \<Rightarrow> Some (Inr (map (\<lambda>v. vertices_g g ! v) t)))"

definition run :: "'c graph \<Rightarrow> optimized \<Rightarrow> ('c invalid_solution + 'c vertex list) option" where
  "run g res =
     (case solve g res of
        Inl e \<Rightarrow> Some (Inl e)
      | Inr elapsed \<Rightarrow> graph_solution g res)"

subsection \<open>The two-tour model and its similarity constraint\<close>

text \<open>
  \<^verbatim>\<open>program::map\<close> (main.cpp) calls a constructor \<^verbatim>\<open>graph(vertices, env, similarity)\<close>,
  but the \<^verbatim>\<open>graph\<close> class among the sources holds one tour and takes no threshold. The
  definitions of this subsection follow the spec (3, 4.4, 6) instead.
\<close>

text \<open>
  Modelled from the spec: a constraint of the engine over products of two variables (6,
  "add bilinear constraint(sum of pairwise products, relation, rhs)").
\<close>

record quad_constr =
  qexpr :: "(GRBVar \<times> GRBVar) list"
  quad_sense :: sense
  qrhs :: real

text \<open>
  Modelled from the spec: the two-tour graph, with one decision variable matrix per tour
  (3) in one model, and the constraints over products added to it.
\<close>

record 'c graph2 =
  model2 :: GRBModel
  quad2 :: "quad_constr list"
  vertices2 :: "'c vertex list"
  vars1 :: "GRBVar matrix"
  vars2 :: "GRBVar matrix"

text \<open>
  Modelled from the spec: the left-hand side of the similarity constraint (4.4), "the sum,
  over all unordered pairs, of the bilinear product of tour-1's and tour-2's variable for
  that pair".
\<close>

definition similarity_expr ::
  "nat \<Rightarrow> GRBVar matrix \<Rightarrow> GRBVar matrix \<Rightarrow> (GRBVar \<times> GRBVar) list" where
  "similarity_expr n xs1 xs2 =
     concat (map (\<lambda>u. map (\<lambda>v. (row xs1 u ! v, row xs2 u ! v)) [Suc u..<n]) [0..<n])"

text \<open>
  Modelled from the spec: the constructor with a threshold (4.4). For each of the two tours
  it builds the variables and the degree constraints as \<open>add_vars\<close> and
  \<open>add_constraint_deg_2\<close> above do, with that tour's cost function, and it adds one global
  constraint: the similarity sum is at least the threshold \<open>k\<close>.
\<close>

definition graph2_new ::
  "('c vertex \<Rightarrow> 'c vertex \<Rightarrow> real) \<Rightarrow> ('c vertex \<Rightarrow> 'c vertex \<Rightarrow> real) \<Rightarrow> 'c vertex list \<Rightarrow> nat
     \<Rightarrow> 'c graph2" where
  "graph2_new cost1 cost2 vs k =
     (let n = length vs;
          (xs1, m1) = add_vars cost1 vs \<lparr>model_vars = [], model_constrs = []\<rparr>;
          (xs2, m2) = add_vars cost2 vs m1;
          m3 = add_constraint_deg_2 n xs1 m2;
          m4 = add_constraint_deg_2 n xs2 m3
      in \<lparr>model2 = m4,
          quad2 = [\<lparr>qexpr = similarity_expr n xs1 xs2, quad_sense = GRB_GREATER_EQUAL,
                    qrhs = real k\<rparr>],
          vertices2 = vs, vars1 = xs1, vars2 = xs2\<rparr>)"

section \<open>Vocabulary of the properties\<close>

subsection \<open>Matrices\<close>

text \<open>
  A matrix is valid for \<open>n\<close> when it is \<open>n\<close> by \<open>n\<close>: its buffer holds \<open>n * n\<close> items
  (a buffer in memory does so only for \<open>n * n < 2 ^ 64\<close>, that is for \<open>n < 2 ^ 32\<close>: the
  range in which the counters of the loops are the numbers they stand for).
  \<open>entry m u v\<close> is \<^verbatim>\<open>m[u][v]\<close>.
\<close>

definition valid_matrix :: "'a matrix \<Rightarrow> nat \<Rightarrow> bool" where
  "valid_matrix m n \<longleftrightarrow> len m = n \<and> length (buffer m) = n * n"

definition entry :: "'a matrix \<Rightarrow> nat \<Rightarrow> nat \<Rightarrow> 'a" where
  "entry m u v = row m u ! v"

subsection \<open>The iterator\<close>

text \<open>
  \<open>unseen\<close> are the positions whose bit is not set; the iterator is well formed when it has
  one bit per vertex; \<open>mark\<close> sets a bit. \<open>yields it ts\<close> says that \<open>ts\<close> are the tours the
  iterator returns, in order, until it runs dry: the cycles \<open>min_sub_tour\<close> extracts.
  \<open>shorter\<close> is the update of the minimum in the loop, and \<open>first_shortest ts r\<close> says that
  \<open>r\<close> is the first tour of \<open>ts\<close> among those of least length.
\<close>

definition unseen :: "'c iter_tours \<Rightarrow> nat set" where
  "unseen it = {i. i < count it \<and> \<not> seen it ! i}"

definition iter_ok :: "'c iter_tours \<Rightarrow> bool" where
  "iter_ok it \<longleftrightarrow> length (seen it) = count it"

definition mark :: "'c iter_tours \<Rightarrow> nat \<Rightarrow> 'c iter_tours" where
  "mark it node = it\<lparr>seen := (seen it)[node := True]\<rparr>"

fun yields :: "'c iter_tours \<Rightarrow> tour list \<Rightarrow> bool" where
  "yields it [] \<longleftrightarrow> next_tour it = None"
| "yields it (t # ts) \<longleftrightarrow>
     (case next_tour it of None \<Rightarrow> False | Some (t', it') \<Rightarrow> t' = t \<and> yields it' ts)"

definition shorter :: "tour \<Rightarrow> tour \<Rightarrow> tour" where
  "shorter min_tour t = (if length t < length min_tour then t else min_tour)"

definition first_shortest :: "tour list \<Rightarrow> tour \<Rightarrow> bool" where
  "first_shortest ts r \<longleftrightarrow>
     (\<exists>i < length ts. r = ts ! i
        \<and> (\<forall>j < length ts. length r \<le> length (ts ! j))
        \<and> (\<forall>j < i. length r < length (ts ! j)))"

subsection \<open>Cycles encoded by an adjacency matrix\<close>

text \<open>
  \<open>nxt a i\<close> and \<open>prv a i\<close> are the positions after and before \<open>i\<close> on a cycle of \<open>a\<close>
  positions. \<open>is_cycle m n c\<close>: the vertices of \<open>c\<close> are distinct positions below \<open>n\<close>, and
  the row of each of them is true exactly at its two neighbours on \<open>c\<close>. A matrix encodes
  one Hamiltonian cycle when such a \<open>c\<close> has all \<open>n\<close> positions, and two disjoint cycles when
  two such lists share no vertex and have \<open>n\<close> positions together: every row is then fixed.
  \<open>same_cycle t c\<close>: \<open>t\<close> is \<open>c\<close> read from some start in one of the two directions.
\<close>

definition nxt :: "nat \<Rightarrow> nat \<Rightarrow> nat" where
  "nxt a i = Suc i mod a"

definition prv :: "nat \<Rightarrow> nat \<Rightarrow> nat" where
  "prv a i = (i + (a - 1)) mod a"

definition is_cycle :: "bool matrix \<Rightarrow> nat \<Rightarrow> nat list \<Rightarrow> bool" where
  "is_cycle m n c \<longleftrightarrow>
     distinct c \<and> (\<forall>u \<in> set c. u < n) \<and>
     (\<forall>i < length c. \<forall>v < n.
        row m (c ! i) ! v \<longleftrightarrow> v = c ! nxt (length c) i \<or> v = c ! prv (length c) i)"

definition cycle_views :: "nat list \<Rightarrow> nat list list" where
  "cycle_views c = concat (map (\<lambda>p. [rotate p c, rotate p (rev c)]) [0..<Suc (length c)])"

definition same_cycle :: "nat list \<Rightarrow> nat list \<Rightarrow> bool" where
  "same_cycle t c \<longleftrightarrow> t \<in> set (cycle_views c)"

subsection \<open>The variables of a tour\<close>

text \<open>
  \<open>all_pairs n\<close> lists the unordered pairs of positions in the order \<open>add_vars\<close> visits them,
  and \<open>edge_attrs\<close> are the attributes \<open>add_edge\<close> gives the variable of a pair.
  \<open>vars_inv\<close> is the invariant of the loops of \<open>add_vars\<close>: after the pairs \<open>L\<close>, the model
  has one more variable for each pair of \<open>L\<close>, in order, both entries of a pair of \<open>L\<close> hold
  its handle, and every other entry is the default handle.
\<close>

definition all_pairs :: "nat \<Rightarrow> (nat \<times> nat) list" where
  "all_pairs n = concat (map (\<lambda>u. map (Pair u) [Suc u..<n]) [0..<n])"

definition edge_attrs ::
  "('c vertex \<Rightarrow> 'c vertex \<Rightarrow> real) \<Rightarrow> 'c vertex list \<Rightarrow> nat \<times> nat \<Rightarrow> var_attrs" where
  "edge_attrs cost vs p =
     \<lparr>lb = 0, ub = 1, obj = cost (vs ! fst p) (vs ! snd p), vtype = GRB_BINARY,
      varname = ''x_'' @ decimal (vertex_id (vs ! fst p)) @ ''_''
                @ decimal (vertex_id (vs ! snd p))\<rparr>"

definition pairs_ok :: "nat \<Rightarrow> (nat \<times> nat) list \<Rightarrow> bool" where
  "pairs_ok n L \<longleftrightarrow> distinct L \<and> (\<forall>p \<in> set L. fst p < snd p \<and> snd p < n)"

definition vars_inv ::
  "('c vertex \<Rightarrow> 'c vertex \<Rightarrow> real) \<Rightarrow> 'c vertex list \<Rightarrow> GRBModel \<Rightarrow> (nat \<times> nat) list
     \<Rightarrow> GRBVar matrix \<times> GRBModel \<Rightarrow> bool" where
  "vars_inv cost vs m0 L st \<longleftrightarrow>
     valid_matrix (fst st) (length vs) \<and>
     model_vars (snd st) = model_vars m0 @ map (edge_attrs cost vs) L \<and>
     model_constrs (snd st) = model_constrs m0 \<and>
     (\<forall>k < length L.
        entry (fst st) (fst (L ! k)) (snd (L ! k)) = Var (length (model_vars m0) + k) \<and>
        entry (fst st) (snd (L ! k)) (fst (L ! k)) = Var (length (model_vars m0) + k)) \<and>
     (\<forall>a < length vs. \<forall>b < length vs.
        (a, b) \<notin> set L \<and> (b, a) \<notin> set L \<longrightarrow> entry (fst st) a b = Null_var)"

subsection \<open>Candidates of the two-tour model\<close>

text \<open>
  A candidate gives every variable a value; it is binary when every value is 0 or 1.
  \<open>quad_value\<close> is the left-hand side of a constraint over products, \<open>quad_satisfied\<close> its
  truth, and \<open>shared_edges\<close> counts the unordered pairs whose variable is 1 in both tours.
\<close>

definition value_of :: "(nat \<Rightarrow> real) \<Rightarrow> GRBVar \<Rightarrow> real" where
  "value_of x v = (case v of Var i \<Rightarrow> x i | Null_var \<Rightarrow> 0)"

definition binary :: "(nat \<Rightarrow> real) \<Rightarrow> bool" where
  "binary x \<longleftrightarrow> (\<forall>i. x i = 0 \<or> x i = 1)"

definition quad_value :: "(nat \<Rightarrow> real) \<Rightarrow> quad_constr \<Rightarrow> real" where
  "quad_value x q = sum_list (map (\<lambda>(a, b). value_of x a * value_of x b) (qexpr q))"

definition quad_satisfied :: "(nat \<Rightarrow> real) \<Rightarrow> quad_constr \<Rightarrow> bool" where
  "quad_satisfied x q =
     (case quad_sense q of
        GRB_LESS_EQUAL \<Rightarrow> quad_value x q \<le> qrhs q
      | GRB_EQUAL \<Rightarrow> quad_value x q = qrhs q
      | GRB_GREATER_EQUAL \<Rightarrow> quad_value x q \<ge> qrhs q)"

definition shared_edges :: "'c graph2 \<Rightarrow> (nat \<Rightarrow> real) \<Rightarrow> nat" where
  "shared_edges g x =
     length (filter (\<lambda>(u, v). value_of x (entry (vars1 g) u v) = 1
                            \<and> value_of x (entry (vars2 g) u v) = 1)
               (all_pairs (length (vertices2 g))))"

subsection \<open>Concrete inputs\<close>

text \<open>
  Vertices with ids from 1 and integer coordinates; the adjacency matrix of a list of
  undirected edges; a ring of five vertices, a ring of four beside a ring of three, and a
  star whose rows have three, one and no true entries; an iterator on the star that has
  seen the centre; a cost function, a graph of three vertices, results of the solver, a
  candidate of the two-tour model and a line parser for two lines.
\<close>

definition example_vertices :: "nat \<Rightarrow> int vertex list" where
  "example_vertices n =
     map (\<lambda>i. \<lparr>vertex_id = Suc i, x1 = 0, y1 = 0, x2 = 0, y2 = 0\<rparr>) [0..<n]"

definition adjacency_of :: "nat \<Rightarrow> (nat \<times> nat) list \<Rightarrow> bool matrix" where
  "adjacency_of n es =
     \<lparr>buffer = map (\<lambda>k. (k div n, k mod n) \<in> set es \<or> (k mod n, k div n) \<in> set es)
                 [0..<n * n],
      len = n\<rparr>"

definition ring5 :: "bool matrix" where
  "ring5 = adjacency_of 5 [(0, 3), (3, 1), (1, 4), (4, 2), (2, 0)]"

definition two_rings7 :: "bool matrix" where
  "two_rings7 = adjacency_of 7 [(0, 2), (2, 4), (4, 6), (6, 0), (1, 3), (3, 5), (5, 1)]"

definition star5 :: "bool matrix" where
  "star5 = adjacency_of 5 [(0, 1), (0, 2), (0, 3)]"

definition star5_state :: "int iter_tours" where
  "star5_state = \<lparr>seen = [True, False, False, False, False],
                  vertices = example_vertices 5, solution = star5\<rparr>"

definition example_cost :: "int vertex \<Rightarrow> int vertex \<Rightarrow> real" where
  "example_cost u v = real (vertex_id u + vertex_id v)"

definition example_cost2 :: "int vertex \<Rightarrow> int vertex \<Rightarrow> real" where
  "example_cost2 u v = real (vertex_id u * vertex_id v)"

definition example_graph :: "int graph" where
  "example_graph = graph_new example_cost (example_vertices 3)"

definition example_result :: "int \<Rightarrow> real \<Rightarrow> optimized" where
  "example_result n x = \<lparr>IntAttr_SolCount = n, DoubleAttr_X = (\<lambda>k. x), total_time = 0\<rparr>"

definition example_candidate :: "nat \<Rightarrow> real" where
  "example_candidate i = (if i \<in> {0, 1, 3, 4} then 1 else 0)"

definition example_get4 :: "string \<Rightarrow> (int \<times> int \<times> int \<times> int) option" where
  "example_get4 line =
     (if line = ''0 0 1 1'' then Some (0, 0, 1, 1)
      else if line = ''2 2 3 3'' then Some (2, 2, 3, 3)
      else None)"

section \<open>Tour extraction\<close>

subsection \<open>The two searches\<close>

lemma new_node_from_Some:
  "new_node_from it k = Some v \<Longrightarrow>
     k \<le> v \<and> v < count it \<and> \<not> seen it ! v \<and> (\<forall>i. k \<le> i \<and> i < v \<longrightarrow> seen it ! i)"
proof (induction it k rule: new_node_from.induct)
  case (1 it node)
  show ?case
  proof (cases "node < count it \<and> seen it ! node")
    case True
    with "1.prems" have "new_node_from it (Suc node) = Some v"
      by (subst (asm) new_node_from.simps) simp
    with True "1.IH" have IH: "Suc node \<le> v \<and> v < count it \<and> \<not> seen it ! v
        \<and> (\<forall>i. Suc node \<le> i \<and> i < v \<longrightarrow> seen it ! i)"
      by simp
    have "seen it ! i" if "node \<le> i" "i < v" for i
      using that IH True by (cases "i = node") auto
    with IH show ?thesis by auto
  next
    case False
    with "1.prems" show ?thesis
      by (subst (asm) new_node_from.simps) (auto split: if_splits)
  qed
qed

lemma new_node_from_None:
  "new_node_from it k = None \<Longrightarrow> k \<le> i \<Longrightarrow> i < count it \<Longrightarrow> seen it ! i"
proof (induction it k rule: new_node_from.induct)
  case (1 it node)
  from "1.prems" have lt: "node < count it" by simp
  from "1.prems"(1) lt have s: "seen it ! node" and r: "new_node_from it (Suc node) = None"
    by (subst (asm) new_node_from.simps, simp split: if_splits)+
  show ?case
  proof (cases "i = node")
    case True with s show ?thesis by simp
  next
    case False
    with "1.prems" have "Suc node \<le> i" by simp
    with "1.IH" lt s r "1.prems" show ?thesis by simp
  qed
qed

lemma best_next_from_Some:
  "best_next_from it sol k = Some v \<Longrightarrow>
     k \<le> v \<and> v < count it \<and> sol ! v \<and> \<not> seen it ! v
     \<and> (\<forall>i. k \<le> i \<and> i < v \<longrightarrow> \<not> (sol ! i \<and> \<not> seen it ! i))"
proof (induction it sol k rule: best_next_from.induct)
  case (1 it sol node)
  show ?case
  proof (cases "node < count it \<and> \<not> (sol ! node \<and> \<not> seen it ! node)")
    case True
    with "1.prems" have "best_next_from it sol (Suc node) = Some v"
      by (subst (asm) best_next_from.simps) auto
    with True "1.IH" have IH: "Suc node \<le> v \<and> v < count it \<and> sol ! v \<and> \<not> seen it ! v
        \<and> (\<forall>i. Suc node \<le> i \<and> i < v \<longrightarrow> \<not> (sol ! i \<and> \<not> seen it ! i))"
      by auto
    have "\<not> (sol ! i \<and> \<not> seen it ! i)" if "node \<le> i" "i < v" for i
      using that IH True by (cases "i = node") auto
    with IH show ?thesis by auto
  next
    case False
    with "1.prems" show ?thesis
      by (subst (asm) best_next_from.simps) (auto split: if_splits)
  qed
qed

lemma best_next_from_None:
  "best_next_from it sol k = None \<Longrightarrow> k \<le> i \<Longrightarrow> i < count it \<Longrightarrow> \<not> (sol ! i \<and> \<not> seen it ! i)"
proof (induction it sol k rule: best_next_from.induct)
  case (1 it sol node)
  from "1.prems" have lt: "node < count it" by simp
  from "1.prems"(1) lt have s: "\<not> (sol ! node \<and> \<not> seen it ! node)"
    and r: "best_next_from it sol (Suc node) = None"
    by (subst (asm) best_next_from.simps, simp split: if_splits)+
  show ?case
  proof (cases "i = node")
    case True with s show ?thesis by simp
  next
    case False
    with "1.prems" have "Suc node \<le> i" by simp
    with "1.IH" lt s r "1.prems" show ?thesis by blast
  qed
qed

subsection \<open>One walk\<close>

lemma mark_simps [simp]:
  "count (mark it node) = count it"
  "vertices (mark it node) = vertices it"
  "solution (mark it node) = solution it"
  "length (seen (mark it node)) = length (seen it)"
  by (simp_all add: mark_def count_def)

lemma iter_ok_mark [simp]: "iter_ok (mark it node) = iter_ok it"
  by (simp add: iter_ok_def)

lemma seen_mark:
  "i < length (seen it) \<Longrightarrow> seen (mark it node) ! i \<longleftrightarrow> i = node \<or> seen it ! i"
  by (cases "i = node") (simp_all add: mark_def)

lemma unseen_mark: "iter_ok it \<Longrightarrow> unseen (mark it node) = unseen it - {node}"
  unfolding unseen_def iter_ok_def by (auto simp: seen_mark)

lemma finite_unseen [simp]: "finite (unseen it)"
  by (simp add: unseen_def)

lemma unseen_less: "i \<in> unseen it \<Longrightarrow> i < count it"
  by (simp add: unseen_def)

lemma next_tour_loop_Suc:
  "next_tour_loop it node (Suc n) acc =
     (case best_next (mark it node) node of
        Some next \<Rightarrow> next_tour_loop (mark it node) next n (acc @ [node])
      | None \<Rightarrow> (acc @ [node], mark it node))"
  by (simp add: mark_def Let_def split: option.split)

declare next_tour_loop.simps(2) [simp del]

lemma best_next_Some_unseen:
  "best_next it u = Some v \<Longrightarrow> v \<in> unseen it \<and> row (solution it) u ! v"
  unfolding best_next_def unseen_def by (auto dest: best_next_from_Some)

lemma next_tour_loop_walk:
  assumes "next_tour_loop it node n acc = (t, it')" "iter_ok it" "node \<in> unseen it"
  shows "\<exists>w. t = acc @ w \<and> length w \<le> n \<and> distinct w \<and> set w \<subseteq> unseen it
           \<and> (0 < n \<longrightarrow> w \<noteq> [] \<and> hd w = node)
           \<and> iter_ok it' \<and> unseen it' = unseen it - set w
           \<and> vertices it' = vertices it \<and> solution it' = solution it"
  using assms
proof (induction n arbitrary: it node acc)
  case 0
  then show ?case by simp
next
  case (Suc n)
  let ?it1 = "mark it node"
  have ok1: "iter_ok ?it1" using Suc.prems by simp
  have u1: "unseen ?it1 = unseen it - {node}" using Suc.prems by (simp add: unseen_mark)
  show ?case
  proof (cases "best_next ?it1 node")
    case None
    with Suc.prems have "t = acc @ [node]" "it' = ?it1"
      by (simp_all add: next_tour_loop_Suc)
    with Suc.prems ok1 u1 show ?thesis by simp
  next
    case (Some nxt)
    with Suc.prems have run: "next_tour_loop ?it1 nxt n (acc @ [node]) = (t, it')"
      by (simp add: next_tour_loop_Suc)
    from Some have nu: "nxt \<in> unseen ?it1" by (simp add: best_next_Some_unseen)
    from Suc.IH [OF run ok1 nu] obtain w where w:
      "t = (acc @ [node]) @ w" "length w \<le> n" "distinct w" "set w \<subseteq> unseen ?it1"
      "iter_ok it'" "unseen it' = unseen ?it1 - set w"
      "vertices it' = vertices ?it1" "solution it' = solution ?it1"
      by blast
    let ?w = "node # w"
    have "t = acc @ ?w" using w by simp
    moreover have "length ?w \<le> Suc n" using w by simp
    moreover have "distinct ?w" using w u1 by auto
    moreover have "set ?w \<subseteq> unseen it" using w u1 Suc.prems by auto
    moreover have "unseen it' = unseen it - set ?w" using w u1 by auto
    ultimately show ?thesis using w by (intro exI [of _ ?w]) simp
  qed
qed

lemma new_node_Some:
  "new_node it = Some v \<Longrightarrow> v \<in> unseen it \<and> (\<forall>i \<in> unseen it. v \<le> i)"
  unfolding new_node_def unseen_def
  by (frule new_node_from_Some) (auto simp: not_less [symmetric])

lemma new_node_None: "new_node it = None \<longleftrightarrow> unseen it = {}"
proof
  assume "new_node it = None"
  then have "seen it ! i" if "i < count it" for i
    unfolding new_node_def using that new_node_from_None [of it 0 i] by simp
  then show "unseen it = {}"
    unfolding unseen_def by auto
next
  assume e: "unseen it = {}"
  show "new_node it = None"
  proof (cases "new_node it")
    case (Some v)
    with e show ?thesis by (auto dest: new_node_Some)
  qed simp
qed

lemma next_tour_None: "next_tour it = None \<longleftrightarrow> unseen it = {}"
  using new_node_None [of it] by (cases "new_node it") (auto simp: next_tour_def)

lemma next_tour_Some:
  assumes "next_tour it = Some (t, it')" "iter_ok it"
  shows "t \<noteq> [] \<and> distinct t \<and> set t \<subseteq> unseen it \<and> length t \<le> count it
         \<and> hd t \<in> unseen it \<and> (\<forall>i \<in> unseen it. hd t \<le> i)
         \<and> iter_ok it' \<and> unseen it' = unseen it - set t
         \<and> vertices it' = vertices it \<and> solution it' = solution it"
proof -
  from assms obtain node where n: "new_node it = Some node"
    and run: "next_tour_loop it node (count it) [] = (t, it')"
    by (auto simp: next_tour_def next_tour_at_def split: option.splits)
  from n have nu: "node \<in> unseen it" and least: "\<forall>i \<in> unseen it. node \<le> i"
    by (auto dest: new_node_Some)
  from nu have pos: "0 < count it" by (auto dest: unseen_less)
  from next_tour_loop_walk [OF run assms(2) nu] pos least nu show ?thesis
    by auto
qed

subsection \<open>The loop over the walks\<close>

lemma count_eq: "vertices it' = vertices it \<Longrightarrow> count it' = count it"
  by (simp add: count_def)

lemma next_tour_decreases:
  assumes "next_tour it = Some (t, it')" "iter_ok it"
  shows "card (unseen it') < card (unseen it)"
proof -
  from next_tour_Some [OF assms] have "t \<noteq> []" "set t \<subseteq> unseen it"
    "unseen it' = unseen it - set t" by auto
  then have "unseen it' \<subset> unseen it" by (cases t) auto
  then show ?thesis by (simp add: psubset_card_mono)
qed

lemma tours_loop_yields:
  "iter_ok it \<Longrightarrow> \<exists>ts. yields it ts \<and> tours_loop it mt = Some (foldl shorter mt ts)"
proof (induction "card (unseen it)" arbitrary: it mt rule: less_induct)
  case less
  show ?case
  proof (cases "next_tour it")
    case None
    then have "yields it []" "tours_loop it mt = Some (foldl shorter mt [])"
      by (simp_all add: tours_loop.simps)
    then show ?thesis by blast
  next
    case (Some p)
    obtain t it' where p: "p = (t, it')" by (cases p)
    with Some have nt: "next_tour it = Some (t, it')" by simp
    from next_tour_Some [OF nt less.prems] have ok': "iter_ok it'" by simp
    from less.hyps [OF next_tour_decreases [OF nt less.prems] ok', of "shorter mt t"]
    obtain ts where ts: "yields it' ts"
      "tours_loop it' (shorter mt t) = Some (foldl shorter (shorter mt t) ts)"
      by blast
    have "yields it (t # ts)" using nt ts by simp
    moreover have "tours_loop it mt = Some (foldl shorter mt (t # ts))"
      using nt ts by (subst tours_loop.simps) (simp add: shorter_def)
    ultimately show ?thesis by blast
  qed
qed

lemma yields_unique: "yields it ts \<Longrightarrow> yields it ts' \<Longrightarrow> ts = ts'"
proof (induction ts arbitrary: it ts')
  case Nil
  then show ?case by (cases ts') auto
next
  case (Cons t ts)
  then show ?case by (cases ts') (auto split: option.splits)
qed

lemma yields_props:
  assumes "yields it ts" "iter_ok it"
  shows "(\<forall>t \<in> set ts. t \<noteq> [] \<and> distinct t \<and> set t \<subseteq> unseen it \<and> length t \<le> count it)
         \<and> sorted_wrt (<) (map hd ts)
         \<and> sum_list (map length ts) = card (unseen it)"
  using assms
proof (induction ts arbitrary: it)
  case Nil
  then show ?case by (simp add: next_tour_None)
next
  case (Cons t ts)
  from Cons.prems(1) obtain it' where nt: "next_tour it = Some (t, it')" and y: "yields it' ts"
    by (cases "next_tour it") auto
  note P = next_tour_Some [OF nt Cons.prems(2)]
  from P have ok': "iter_ok it'" and u': "unseen it' = unseen it - set t"
    and c': "count it' = count it" by (simp_all add: count_def)
  from Cons.IH [OF y ok'] have IH:
    "\<forall>t \<in> set ts. t \<noteq> [] \<and> distinct t \<and> set t \<subseteq> unseen it' \<and> length t \<le> count it'"
    "sorted_wrt (<) (map hd ts)" "sum_list (map length ts) = card (unseen it')"
    by simp_all
  have heads: "hd t < hd s" if "s \<in> set ts" for s
  proof -
    from IH(1) that have "hd s \<in> unseen it'" by (cases s) auto
    with u' have "hd s \<in> unseen it" "hd s \<notin> set t" by auto
    moreover from P have "hd t \<in> set t" by (cases t) auto
    ultimately show ?thesis using P by (metis le_neq_implies_less)
  qed
  have "card (unseen it') = card (unseen it) - length t"
    using P u' by (simp add: card_Diff_subset distinct_card)
  moreover have "length t \<le> card (unseen it)"
    using P by (metis card_mono distinct_card finite_unseen)
  ultimately have "sum_list (map length (t # ts)) = card (unseen it)"
    using IH(3) by simp
  moreover have "sorted_wrt (<) (map hd (t # ts))"
    using IH(2) heads by simp
  moreover have "\<forall>s \<in> set (t # ts). s \<noteq> [] \<and> distinct s \<and> set s \<subseteq> unseen it
      \<and> length s \<le> count it"
    using P IH(1) u' c' by auto
  ultimately show ?case by blast
qed

lemma foldl_shorter_first_shortest: "first_shortest (m # ts) (foldl shorter m ts)"
proof (induction ts rule: rev_induct)
  case Nil
  show ?case by (simp add: first_shortest_def)
next
  case (snoc t ts)
  let ?r = "foldl shorter m ts"
  from snoc obtain i where i: "i < length (m # ts)" "?r = (m # ts) ! i"
    "\<forall>j < length (m # ts). length ?r \<le> length ((m # ts) ! j)"
    "\<forall>j < i. length ?r < length ((m # ts) ! j)"
    unfolding first_shortest_def by blast
  let ?xs = "m # ts @ [t]"
  have nth_old: "?xs ! j = (m # ts) ! j" if "j < length (m # ts)" for j
    using that by (metis append_Cons nth_append)
  have nth_new: "?xs ! length (m # ts) = t"
    by (metis append_Cons nth_append_length)
  show ?case
  proof (cases "length t < length ?r")
    case True
    then have r: "foldl shorter m (ts @ [t]) = t" by (simp add: shorter_def)
    have "\<forall>j < length ?xs. length t \<le> length (?xs ! j)"
    proof (intro allI impI)
      fix j assume "j < length ?xs"
      then consider "j < length (m # ts)" | "j = length (m # ts)" by force
      then show "length t \<le> length (?xs ! j)"
      proof cases
        case 1
        with i(3) True nth_old show ?thesis by (metis le_trans less_imp_le)
      next
        case 2
        with nth_new show ?thesis by simp
      qed
    qed
    moreover have "\<forall>j < length (m # ts). length t < length (?xs ! j)"
      using i(3) True nth_old by (metis less_le_trans)
    ultimately show ?thesis
      unfolding first_shortest_def r
      by (intro exI [of _ "length (m # ts)"]) (simp only: nth_new, simp)
  next
    case False
    then have r: "foldl shorter m (ts @ [t]) = ?r" by (simp add: shorter_def)
    have "\<forall>j < length ?xs. length ?r \<le> length (?xs ! j)"
    proof (intro allI impI)
      fix j assume "j < length ?xs"
      then consider "j < length (m # ts)" | "j = length (m # ts)" by force
      then show "length ?r \<le> length (?xs ! j)"
      proof cases
        case 1
        with i(3) nth_old show ?thesis by metis
      next
        case 2
        with nth_new False show ?thesis by simp
      qed
    qed
    moreover have "\<forall>j < i. length ?r < length (?xs ! j)"
      using i(1,4) nth_old by (metis less_trans)
    moreover have "?r = ?xs ! i" using i(1,2) nth_old by metis
    moreover have "i < length ?xs" using i(1) by simp
    ultimately show ?thesis
      unfolding first_shortest_def r by blast
  qed
qed

subsection \<open>Cycles, their rotations and reflections\<close>

lemma nxt_eq: "i < a \<Longrightarrow> nxt a i = (if Suc i = a then 0 else Suc i)"
  by (simp add: nxt_def)

lemma prv_eq: "i < a \<Longrightarrow> prv a i = (if i = 0 then a - 1 else i - 1)"
proof (cases "i = 0")
  case True
  assume "i < a"
  with True show ?thesis by (simp add: prv_def)
next
  case False
  assume lt: "i < a"
  from False lt have "i + (a - 1) = a + (i - 1)" by simp
  then have "prv a i = (a + (i - 1)) mod a" by (simp only: prv_def)
  also have "\<dots> = i - 1" using lt by simp
  finally show ?thesis using False by simp
qed

lemma nxt_less: "i < a \<Longrightarrow> nxt a i < a"
  by (simp add: nxt_def)

lemma prv_less: "i < a \<Longrightarrow> prv a i < a"
  by (simp add: prv_def)

lemma same_cycle_rotate: "same_cycle (rotate p c) c"
proof (cases "c = []")
  case True
  then show ?thesis by (simp add: same_cycle_def cycle_views_def)
next
  case False
  have "rotate p c = rotate (p mod length c) c" by (rule rotate_conv_mod)
  moreover have "p mod length c < Suc (length c)"
    using False by (simp add: less_Suc_eq)
  ultimately show ?thesis
    unfolding same_cycle_def cycle_views_def by (auto simp del: upt_Suc)
qed

lemma same_cycle_rotate_rev: "same_cycle (rotate p (rev c)) c"
proof (cases "c = []")
  case True
  then show ?thesis by (simp add: same_cycle_def cycle_views_def)
next
  case False
  have "rotate p (rev c) = rotate (p mod length c) (rev c)"
    using rotate_conv_mod [of p "rev c"] by simp
  moreover have "p mod length c < Suc (length c)"
    using False by (simp add: less_Suc_eq)
  ultimately show ?thesis
    unfolding same_cycle_def cycle_views_def by (auto simp del: upt_Suc)
qed

lemma rev_rotate_ex: "\<exists>q. rev (rotate p c) = rotate q (rev c)"
proof (cases "c = [] \<or> p mod length c = 0")
  case True
  then have "rotate p c = c" by (auto simp: rotate_id)
  then have "rev (rotate p c) = rotate 0 (rev c)" by simp
  then show ?thesis by blast
next
  case False
  let ?a = "length c"
  let ?p = "p mod ?a"
  from False have lt: "?p < ?a" and pos: "0 < ?p" by simp_all
  have "rotate (?a - ?p) (rev c) = rev (rotate (?a - ((?a - ?p) mod ?a)) c)"
    using rotate_rev [of "?a - ?p" c] by simp
  moreover have "(?a - ?p) mod ?a = ?a - ?p" using pos lt by simp
  moreover have "?a - (?a - ?p) = ?p" using lt by simp
  ultimately have "rotate (?a - ?p) (rev c) = rev (rotate ?p c)" by simp
  also have "rotate ?p c = rotate p c" by (rule rotate_conv_mod [symmetric])
  finally show ?thesis by metis
qed

lemma same_cycle_set: "same_cycle t c \<Longrightarrow> set t = set c \<and> length t = length c \<and> (distinct t \<longleftrightarrow> distinct c)"
  unfolding same_cycle_def cycle_views_def by (auto simp del: upt_Suc)

lemma is_cycle_rotate:
  assumes "is_cycle m n c"
  shows "is_cycle m n (rotate p c)"
proof -
  let ?a = "length c"
  have nb: "row m (rotate p c ! i) ! v \<longleftrightarrow>
      v = rotate p c ! nxt ?a i \<or> v = rotate p c ! prv ?a i" if "i < ?a" "v < n" for i v
  proof -
    let ?i = "(p + i) mod ?a"
    from that have pos: "0 < ?a" by linarith
    then have i': "?i < ?a" by simp
    have "rotate p c ! i = c ! ?i" using that by (simp add: nth_rotate)
    moreover have "rotate p c ! nxt ?a i = c ! nxt ?a ?i"
      using that pos by (simp add: nth_rotate nxt_def mod_Suc_eq mod_add_right_eq)
    moreover have "rotate p c ! prv ?a i = c ! prv ?a ?i"
    proof -
      have "(p + (i + (?a - 1)) mod ?a) mod ?a = (p + (i + (?a - 1))) mod ?a"
        by (rule mod_add_right_eq)
      also have "\<dots> = ((p + i) + (?a - 1)) mod ?a"
        by (simp only: add.assoc)
      also have "\<dots> = ((p + i) mod ?a + (?a - 1)) mod ?a"
        by (rule mod_add_left_eq [symmetric])
      finally have "(p + prv ?a i) mod ?a = prv ?a ?i"
        by (simp only: prv_def)
      moreover have "rotate p c ! prv ?a i = c ! ((p + prv ?a i) mod ?a)"
        using that by (simp only: nth_rotate prv_less)
      ultimately show ?thesis by simp
    qed
    ultimately show ?thesis
      using assms i' that unfolding is_cycle_def by simp
  qed
  with assms show ?thesis unfolding is_cycle_def by simp
qed

lemma is_cycle_rev:
  assumes "is_cycle m n c"
  shows "is_cycle m n (rev c)"
proof -
  let ?a = "length c"
  have nb: "row m (rev c ! i) ! v \<longleftrightarrow>
      v = rev c ! nxt ?a i \<or> v = rev c ! prv ?a i" if "i < ?a" "v < n" for i v
  proof -
    let ?i = "?a - Suc i"
    from that have i': "?i < ?a" by simp
    have "rev c ! i = c ! ?i" using that by (simp add: rev_nth)
    moreover have "?a - Suc (nxt ?a i) = prv ?a ?i"
      using that i' by (simp add: nxt_eq prv_eq) 
    then have "rev c ! nxt ?a i = c ! prv ?a ?i"
      using that by (simp add: rev_nth nxt_less)
    moreover have "?a - Suc (prv ?a i) = nxt ?a ?i"
      using that i' by (auto simp: nxt_eq prv_eq)
    then have "rev c ! prv ?a i = c ! nxt ?a ?i"
      using that by (simp add: rev_nth prv_less)
    ultimately show ?thesis
      using assms i' that unfolding is_cycle_def by auto
  qed
  with assms show ?thesis unfolding is_cycle_def by simp
qed

lemma is_cycle_code [code]:
  "is_cycle m n c \<longleftrightarrow>
     distinct c \<and> list_all (\<lambda>u. u < n) c \<and>
     list_all (\<lambda>i. list_all (\<lambda>v. row m (c ! i) ! v \<longleftrightarrow>
         v = c ! nxt (length c) i \<or> v = c ! prv (length c) i) [0..<n]) [0..<length c]"
  unfolding is_cycle_def list_all_iff by auto

subsection \<open>A walk on a cycle of the matrix\<close>

lemma best_next_Some_least:
  assumes "best_next it u = Some v" "w \<in> unseen it" "row (solution it) u ! w"
  shows "v \<le> w"
proof (rule ccontr)
  assume "\<not> v \<le> w"
  then have "w < v" by simp
  with assms(1) best_next_from_Some [of it "row (solution it) u" 0 v]
  have "\<not> (row (solution it) u ! w \<and> \<not> seen it ! w)"
    by (simp add: best_next_def)
  with assms(2,3) show False by (simp add: unseen_def)
qed

lemma best_next_None_no_unseen:
  assumes "best_next it u = None" "w \<in> unseen it"
  shows "\<not> row (solution it) u ! w"
  using assms best_next_from_None [of it "row (solution it) u" 0 w]
  by (auto simp: best_next_def unseen_def)

lemma distinct_nth_notin_take:
  assumes "distinct d" "j < length d" "k \<le> j"
  shows "d ! j \<notin> set (take k d)"
proof
  assume "d ! j \<in> set (take k d)"
  then obtain i where i: "i < length (take k d)" "take k d ! i = d ! j"
    by (auto simp: in_set_conv_nth)
  then have "i < k" "i < length d" "d ! i = d ! j" by simp_all
  with assms have "i = j" by (simp add: nth_eq_iff_index_eq)
  with \<open>i < k\<close> assms(3) show False by simp
qed

lemma walk_cycle:
  assumes cyc: "is_cycle sol n d"
    and norm: "3 \<le> length d \<longrightarrow> d ! 1 < d ! (length d - 1)"
    and sub: "set d \<subseteq> U"
  shows "iter_ok it \<Longrightarrow> solution it = sol \<Longrightarrow> count it = n \<Longrightarrow> k < length d
      \<Longrightarrow> unseen it = U - set (take k d) \<Longrightarrow> length d - k \<le> l
      \<Longrightarrow> fst (next_tour_loop it (d ! k) l (take k d)) = d"
proof (induction l arbitrary: it k)
  case 0
  then show ?case by simp
next
  case (Suc l)
  let ?a = "length d"
  let ?it1 = "mark it (d ! k)"
  from cyc have dist: "distinct d" and bound: "\<forall>u \<in> set d. u < n"
    and nb: "\<And>i v. i < ?a \<Longrightarrow> v < n \<Longrightarrow>
          row sol (d ! i) ! v \<longleftrightarrow> v = d ! nxt ?a i \<or> v = d ! prv ?a i"
    unfolding is_cycle_def by auto
  have tk: "take (Suc k) d = take k d @ [d ! k]"
    using Suc.prems by (simp add: take_Suc_conv_app_nth)
  have ok1: "iter_ok ?it1" using Suc.prems by simp
  have u1: "unseen ?it1 = U - set (take (Suc k) d)"
    using Suc.prems by (auto simp: unseen_mark tk)
  have sol1: "solution ?it1 = sol" and cnt1: "count ?it1 = n" using Suc.prems by simp_all
  have cand: "v = d ! nxt ?a k \<or> v = d ! prv ?a k"
    if "v \<in> unseen ?it1" "row sol (d ! k) ! v" for v
  proof -
    from that(1) have "v < n" using cnt1 by (auto dest: unseen_less)
    with nb [of k v] that(2) Suc.prems show ?thesis by simp
  qed
  show ?case
  proof (cases "Suc k = ?a")
    case True
    have "best_next ?it1 (d ! k) = None"
    proof (cases "best_next ?it1 (d ! k)")
      case (Some v)
      then have v: "v \<in> unseen ?it1" "row sol (d ! k) ! v"
        using best_next_Some_unseen [OF Some] sol1 by simp_all
      from cand [OF v] Suc.prems have "v \<in> set d"
        by (auto simp: nxt_less prv_less)
      with v(1) u1 True show ?thesis by simp
    qed simp
    then have "next_tour_loop it (d ! k) (Suc l) (take k d) = (take k d @ [d ! k], ?it1)"
      by (simp add: next_tour_loop_Suc)
    with tk True show ?thesis by simp
  next
    case False
    with Suc.prems have lt: "Suc k < ?a" by simp
    then have nx: "nxt ?a k = Suc k" by (simp add: nxt_eq)
    have good: "d ! Suc k \<in> unseen ?it1"
      using u1 sub lt dist by (auto simp: distinct_nth_notin_take)
    have adj: "row sol (d ! k) ! (d ! Suc k)"
      using nb [of k "d ! Suc k"] lt nx bound by simp
    obtain v where v: "best_next ?it1 (d ! k) = Some v"
      using best_next_None_no_unseen [of ?it1 "d ! k" "d ! Suc k"] good adj sol1
      by (cases "best_next ?it1 (d ! k)") auto
    have vu: "v \<in> unseen ?it1" "row sol (d ! k) ! v"
      using best_next_Some_unseen [OF v] sol1 by simp_all
    have least: "v \<le> d ! Suc k"
      using best_next_Some_least [OF v good] adj sol1 by simp
    have "v = d ! Suc k"
    proof (rule ccontr)
      assume ne: "v \<noteq> d ! Suc k"
      with cand [OF vu] nx have vp: "v = d ! prv ?a k" by simp
      show False
      proof (cases "k = 0")
        case True
        from lt have "0 < ?a" by linarith
        with True have p: "prv ?a k = ?a - 1" by (simp add: prv_eq)
        with vp ne True have "?a - 1 \<noteq> 1" by auto
        with lt True have "3 \<le> ?a" by simp
        with norm have "d ! 1 < d ! (?a - 1)" by simp
        with least vp p True show False by simp
      next
        case False
        from lt have "k < ?a" by linarith
        with False have "prv ?a k = k - 1" by (simp add: prv_eq)
        with vp False lt have "v \<in> set (take (Suc k) d)"
          by (auto simp: in_set_conv_nth intro!: exI [of _ "k - 1"])
        with vu(1) u1 show False by simp
      qed
    qed
    with v have step: "next_tour_loop it (d ! k) (Suc l) (take k d)
        = next_tour_loop ?it1 (d ! Suc k) l (take (Suc k) d)"
      by (simp add: next_tour_loop_Suc tk)
    have "fst (next_tour_loop ?it1 (d ! Suc k) l (take (Suc k) d)) = d"
      using Suc.prems lt by (intro Suc.IH ok1 sol1 cnt1 u1) simp_all
    with step show ?thesis by simp
  qed
qed

lemma unseen_subset: "unseen it \<subseteq> {..<count it}"
  by (auto simp: unseen_def)

lemma cycle_normal_form:
  assumes cyc: "is_cycle sol n c" and sc: "s \<in> set c"
  obtains d where "is_cycle sol n d" "same_cycle d c" "d ! 0 = s"
    "3 \<le> length d \<longrightarrow> d ! 1 < d ! (length d - 1)"
proof -
  let ?a = "length c"
  from sc obtain p where p: "p < ?a" "c ! p = s" by (auto simp: in_set_conv_nth)
  let ?d1 = "rotate p c"
  have c1: "is_cycle sol n ?d1" using cyc by (rule is_cycle_rotate)
  have s1: "same_cycle ?d1 c" by (rule same_cycle_rotate)
  from p have pos: "0 < ?a" by linarith
  have h1: "?d1 ! 0 = s" using p pos by (simp add: nth_rotate)
  show ?thesis
  proof (cases "3 \<le> ?a \<and> \<not> ?d1 ! 1 < ?d1 ! (?a - 1)")
    case False
    with c1 s1 h1 show ?thesis by (intro that [of ?d1]) simp_all
  next
    case True
    then have a3: "3 \<le> ?a" by simp
    from c1 have "distinct ?d1" by (simp add: is_cycle_def)
    with a3 have "?d1 ! 1 \<noteq> ?d1 ! (?a - 1)"
      by (simp add: nth_eq_iff_index_eq)
    with True have lt: "?d1 ! (?a - 1) < ?d1 ! 1" by simp
    let ?d = "rotate (?a - 1) (rev ?d1)"
    have c2: "is_cycle sol n ?d" by (rule is_cycle_rotate [OF is_cycle_rev [OF c1]])
    obtain q where "rev ?d1 = rotate q (rev c)" using rev_rotate_ex by blast
    then have "?d = rotate (?a - 1 + q) (rev c)" by (simp add: rotate_rotate)
    then have s2: "same_cycle ?d c" by (simp only: same_cycle_rotate_rev)
    have R: "?d ! i = rev ?d1 ! ((?a - 1 + i) mod ?a)" if "i < ?a" for i
      using that by (simp only: nth_rotate length_rev length_rotate)
    have m0: "(?a - 1 + 0) mod ?a = ?a - 1" using a3 by simp
    have "?a - 1 + 1 = ?a" using a3 by simp
    then have m1: "(?a - 1 + 1) mod ?a = 0" by (simp only: mod_self)
    have "?a - 1 + (?a - 1) = ?a + (?a - 2)" using a3 by simp
    then have "(?a - 1 + (?a - 1)) mod ?a = (?a + (?a - 2)) mod ?a" by (simp only:)
    also have "\<dots> = (?a - 2) mod ?a" by (simp only: mod_add_self1)
    also have "\<dots> = ?a - 2" using a3 by (intro mod_less) simp
    finally have m2: "(?a - 1 + (?a - 1)) mod ?a = ?a - 2" .
    have V: "rev ?d1 ! j = ?d1 ! (?a - Suc j)" if "j < ?a" for j
      using that by (simp add: rev_nth)
    from a3 have lt0: "0 < ?a" "1 < ?a" "?a - 1 < ?a" "?a - 2 < ?a" by linarith+
    have "?d ! 0 = rev ?d1 ! ((?a - 1 + 0) mod ?a)" by (rule R) (rule lt0)
    also have "\<dots> = rev ?d1 ! (?a - 1)" by (simp only: m0)
    also have "\<dots> = ?d1 ! (?a - Suc (?a - 1))" by (rule V) (rule lt0)
    also have "?a - Suc (?a - 1) = 0" using a3 by simp
    finally have e0: "?d ! 0 = ?d1 ! 0" .
    have "?d ! 1 = rev ?d1 ! ((?a - 1 + 1) mod ?a)" by (rule R) (rule lt0)
    also have "\<dots> = rev ?d1 ! 0" by (simp only: m1)
    also have "\<dots> = ?d1 ! (?a - Suc 0)" by (rule V) (rule lt0)
    finally have e1: "?d ! 1 = ?d1 ! (?a - 1)" by simp
    have "?d ! (?a - 1) = rev ?d1 ! ((?a - 1 + (?a - 1)) mod ?a)" by (rule R) (rule lt0)
    also have "\<dots> = rev ?d1 ! (?a - 2)" by (simp only: m2)
    also have "\<dots> = ?d1 ! (?a - Suc (?a - 2))" by (rule V) (rule lt0)
    also have "?a - Suc (?a - 2) = 1" using a3 by simp
    finally have e2: "?d ! (?a - 1) = ?d1 ! 1" .
    note e0 e1 e2
    with lt h1 c2 s2 show ?thesis by (intro that [of ?d]) simp_all
  qed
qed

lemma next_tour_cycle:
  assumes ok: "iter_ok it" and cyc: "is_cycle (solution it) (count it) c"
    and sub: "set c \<subseteq> unseen it" and nn: "new_node it = Some s" and sc: "s \<in> set c"
  shows "\<exists>t it'. next_tour it = Some (t, it') \<and> same_cycle t c"
proof -
  from cycle_normal_form [OF cyc sc] obtain d where d: "is_cycle (solution it) (count it) d"
    "same_cycle d c" "d ! 0 = s" "3 \<le> length d \<longrightarrow> d ! 1 < d ! (length d - 1)"
    by blast
  from d(2) have sd: "set d = set c" "length d = length c" by (simp_all add: same_cycle_set)
  from sc sd have pos: "0 < length d" by (cases d) auto
  from d(1) have "distinct d" by (simp add: is_cycle_def)
  then have "length d = card (set d)" by (simp add: distinct_card)
  also have "\<dots> \<le> card {..<count it}"
    using sd sub unseen_subset [of it] by (intro card_mono) auto
  finally have le: "length d \<le> count it" by simp
  have "fst (next_tour_loop it (d ! 0) (count it) (take 0 d)) = d"
    using ok pos le sd sub
    by (intro walk_cycle [OF d(1) d(4), where U = "unseen it"]) simp_all
  then have "fst (next_tour_at it s) = d" using d(3) by (simp add: next_tour_at_def)
  then have "next_tour it = Some (d, snd (next_tour_at it s))"
    using nn by (simp add: next_tour_def prod_eq_iff)
  with d(2) show ?thesis by blast
qed

lemma iter_tours_init_props:
  "iter_ok (iter_tours_init vs sol)" "unseen (iter_tours_init vs sol) = {..<length vs}"
  "solution (iter_tours_init vs sol) = sol" "count (iter_tours_init vs sol) = length vs"
  by (auto simp: iter_tours_init_def iter_ok_def unseen_def count_def)

lemma min_sub_tour_yields:
  "\<exists>ts. yields (iter_tours_init vs sol) ts \<and>
        min_sub_tour vs sol = Some (case ts of [] \<Rightarrow> [] | first # rest \<Rightarrow> foldl shorter first rest)"
proof (cases "next_tour (iter_tours_init vs sol)")
  case None
  then have "yields (iter_tours_init vs sol) []" "min_sub_tour vs sol = Some []"
    by (simp_all add: min_sub_tour_def)
  then show ?thesis by (intro exI [of _ "[]"]) simp
next
  case (Some p)
  obtain t it' where p: "p = (t, it')" by (cases p)
  with Some have nt: "next_tour (iter_tours_init vs sol) = Some (t, it')" by simp
  from next_tour_Some [OF nt iter_tours_init_props(1)] have "iter_ok it'" by simp
  from tours_loop_yields [OF this, of t] obtain ts where
    ts: "yields it' ts" "tours_loop it' t = Some (foldl shorter t ts)" by blast
  have "yields (iter_tours_init vs sol) (t # ts)" using nt ts by simp
  moreover have "min_sub_tour vs sol = Some (foldl shorter t ts)"
    using nt ts by (simp add: min_sub_tour_def)
  ultimately show ?thesis by (intro exI [of _ "t # ts"]) simp
qed

subsection \<open>The result of \<open>min_sub_tour\<close>\<close>

lemma next_tour_loop_length:
  "length (fst (next_tour_loop it node l acc)) \<le> length acc + l"
proof (induction l arbitrary: it node acc)
  case 0
  show ?case by simp
next
  case (Suc l)
  show ?case
  proof (cases "best_next (mark it node) node")
    case None
    then show ?thesis by (simp add: next_tour_loop_Suc)
  next
    case (Some nx)
    with Suc [of "mark it node" nx "acc @ [node]"] show ?thesis
      by (simp add: next_tour_loop_Suc)
  qed
qed

lemma best_next_None_iff:
  "best_next it u = None \<longleftrightarrow> (\<forall>v < count it. \<not> (row (solution it) u ! v \<and> \<not> seen it ! v))"
proof
  assume "best_next it u = None"
  then show "\<forall>v < count it. \<not> (row (solution it) u ! v \<and> \<not> seen it ! v)"
    using best_next_None_no_unseen [of it u] by (auto simp: unseen_def)
next
  assume a: "\<forall>v < count it. \<not> (row (solution it) u ! v \<and> \<not> seen it ! v)"
  show "best_next it u = None"
  proof (cases "best_next it u")
    case (Some v)
    from best_next_Some_unseen [OF Some] a show ?thesis by (auto simp: unseen_def)
  qed simp
qed

lemma unseen_empty_iff: "unseen it = {} \<longleftrightarrow> (\<forall>i < count it. seen it ! i)"
  by (auto simp: unseen_def)

lemma length_le_sum_list:
  "\<forall>w \<in> set ts. w \<noteq> [] \<Longrightarrow> length ts \<le> sum_list (map length ts)"
proof (induction ts)
  case Nil
  show ?case by simp
next
  case (Cons t ts)
  then have "1 \<le> length t" by (cases t) simp_all
  with Cons show ?case by simp
qed

lemma two_cycles_yields:
  assumes cA: "is_cycle sol (length vs) cA" and cB: "is_cycle sol (length vs) cB"
    and disj: "set cA \<inter> set cB = {}" and cover: "set cA \<union> set cB = {..<length vs}"
    and ne: "cB \<noteq> []"
    and nn: "new_node (iter_tours_init vs sol) = Some s" and s: "s \<in> set cA"
  shows "\<exists>t1 t2. yields (iter_tours_init vs sol) [t1, t2] \<and> same_cycle t1 cA \<and> same_cycle t2 cB"
proof -
  let ?it = "iter_tours_init vs sol"
  note I = iter_tours_init_props [of vs sol]
  have "\<exists>t it'. next_tour ?it = Some (t, it') \<and> same_cycle t cA"
    using cA cover I by (intro next_tour_cycle [OF I(1) _ _ nn s]) auto
  then obtain t1 it1 where t1: "next_tour ?it = Some (t1, it1)" "same_cycle t1 cA" by blast
  note P1 = next_tour_Some [OF t1(1) I(1)]
  from same_cycle_set [OF t1(2)] have s1: "set t1 = set cA" by simp
  from P1 have ok1: "iter_ok it1" and sol1: "solution it1 = sol"
    and cnt1: "count it1 = length vs"
    using I by (simp_all add: count_def)
  from P1 s1 I(2) cover disj have u1: "unseen it1 = set cB" by auto
  with ne have "unseen it1 \<noteq> {}" by simp
  then obtain s' where s': "new_node it1 = Some s'"
    using new_node_None [of it1] by (cases "new_node it1") auto
  then have s'B: "s' \<in> set cB" using new_node_Some [OF s'] u1 by simp
  have "\<exists>t it'. next_tour it1 = Some (t, it') \<and> same_cycle t cB"
    using cB u1 sol1 cnt1 by (intro next_tour_cycle [OF ok1 _ _ s' s'B]) auto
  then obtain t2 it2 where t2: "next_tour it1 = Some (t2, it2)" "same_cycle t2 cB" by blast
  from same_cycle_set [OF t2(2)] have s2: "set t2 = set cB" by simp
  from next_tour_Some [OF t2(1) ok1] s2 u1 have "unseen it2 = {}" by simp
  then have "next_tour it2 = None" by (simp add: next_tour_None)
  with t1 t2 have "yields ?it [t1, t2]" by simp
  with t1(2) t2(2) show ?thesis by blast
qed

lemma two_cycles_result:
  assumes c1: "is_cycle sol (length vs) c1" and c2: "is_cycle sol (length vs) c2"
    and disj: "set c1 \<inter> set c2 = {}" and len: "length c1 + length c2 = length vs"
    and ne: "c1 \<noteq> []" "c2 \<noteq> []"
  shows "\<exists>t. min_sub_tour vs sol = Some t \<and> (same_cycle t c1 \<or> same_cycle t c2)
            \<and> length t = min (length c1) (length c2)"
proof -
  let ?it = "iter_tours_init vs sol"
  note I = iter_tours_init_props [of vs sol]
  from c1 c2 have d: "distinct c1" "distinct c2" "set c1 \<union> set c2 \<subseteq> {..<length vs}"
    by (auto simp: is_cycle_def)
  have "card (set c1 \<union> set c2) = card (set c1) + card (set c2)"
    using disj by (simp add: card_Un_disjoint)
  with d len have "card (set c1 \<union> set c2) = card {..<length vs}"
    by (simp add: distinct_card)
  with d(3) have cover: "set c1 \<union> set c2 = {..<length vs}"
    by (intro card_subset_eq) simp_all
  with ne have "unseen ?it \<noteq> {}" using I(2) by auto
  then obtain s where s: "new_node ?it = Some s"
    using new_node_None [of ?it] by (cases "new_node ?it") auto
  from new_node_Some [OF s] I(2) cover have "s \<in> set c1 \<or> s \<in> set c2" by auto
  then obtain t1 t2 where y: "yields ?it [t1, t2]"
    and sc: "same_cycle t1 c1 \<and> same_cycle t2 c2 \<or> same_cycle t1 c2 \<and> same_cycle t2 c1"
  proof
    assume "s \<in> set c1"
    from two_cycles_yields [OF c1 c2 disj cover ne(2) s this] that show ?thesis by blast
  next
    assume "s \<in> set c2"
    moreover have "set c2 \<inter> set c1 = {}" "set c2 \<union> set c1 = {..<length vs}"
      using disj cover by auto
    ultimately show ?thesis
      using two_cycles_yields [OF c2 c1 _ _ ne(1) s] that by blast
  qed
  from min_sub_tour_yields [of vs sol] obtain ts where ts: "yields ?it ts"
    "min_sub_tour vs sol = Some (case ts of [] \<Rightarrow> [] | first # rest \<Rightarrow> foldl shorter first rest)"
    by blast
  from yields_unique [OF ts(1) y] ts(2) have r: "min_sub_tour vs sol = Some (shorter t1 t2)"
    by simp
  from sc have "length t1 = length c1 \<and> length t2 = length c2
      \<or> length t1 = length c2 \<and> length t2 = length c1"
    by (auto dest: same_cycle_set)
  then have "length (shorter t1 t2) = min (length c1) (length c2)"
    by (auto simp: shorter_def)
  moreover from sc have "same_cycle (shorter t1 t2) c1 \<or> same_cycle (shorter t1 t2) c2"
    by (auto simp: shorter_def)
  ultimately show ?thesis using r by blast
qed

lemma min_sub_tour_general:
  "\<exists>ts t. yields (iter_tours_init vs sol) ts \<and> min_sub_tour vs sol = Some t
      \<and> (ts = [] \<longrightarrow> t = []) \<and> (ts \<noteq> [] \<longrightarrow> first_shortest ts t)
      \<and> (\<forall>s \<in> set ts. length s = length t \<longrightarrow> hd t \<le> hd s)
      \<and> (\<forall>s \<in> set ts. s \<noteq> [] \<and> distinct s \<and> set s \<subseteq> {..<length vs} \<and> length s \<le> length vs)
      \<and> sorted_wrt (<) (map hd ts)
      \<and> sum_list (map length ts) = length vs"
proof -
  let ?it = "iter_tours_init vs sol"
  note I = iter_tours_init_props [of vs sol]
  from min_sub_tour_yields [of vs sol] obtain ts where ts: "yields ?it ts"
    "min_sub_tour vs sol = Some (case ts of [] \<Rightarrow> [] | first # rest \<Rightarrow> foldl shorter first rest)"
    by blast
  let ?t = "case ts of [] \<Rightarrow> [] | first # rest \<Rightarrow> foldl shorter first rest"
  from yields_props [OF ts(1) I(1)] I have P:
    "\<forall>s \<in> set ts. s \<noteq> [] \<and> distinct s \<and> set s \<subseteq> {..<length vs} \<and> length s \<le> length vs"
    "sorted_wrt (<) (map hd ts)" "sum_list (map length ts) = length vs"
    by simp_all
  have fs: "ts \<noteq> [] \<longrightarrow> first_shortest ts ?t"
    using foldl_shorter_first_shortest by (cases ts) auto
  have tie: "hd ?t \<le> hd s" if "s \<in> set ts" "length s = length ?t" for s
  proof -
    from that(1) have "ts \<noteq> []" by auto
    with fs obtain i where i: "i < length ts" "?t = ts ! i"
      "\<forall>j < i. length ?t < length (ts ! j)"
      unfolding first_shortest_def by blast
    from that(1) obtain j where j: "j < length ts" "s = ts ! j"
      by (auto simp: in_set_conv_nth)
    with i(3) that(2) have "i \<le> j" by (metis less_irrefl not_le)
    show ?thesis
    proof (cases "i = j")
      case True
      with i j show ?thesis by simp
    next
      case False
      with \<open>i \<le> j\<close> have "i < j" by simp
      with P(2) j(1) have "hd (ts ! i) < hd (ts ! j)"
        by (simp add: sorted_wrt_iff_nth_less)
      with i j show ?thesis by simp
    qed
  qed
  have "ts = [] \<longrightarrow> ?t = []" by simp
  with ts fs tie P show ?thesis by blast
qed

subsection \<open>The claims on tour extraction\<close>

text \<open>
  Claim C1. For every vertex list of size \<open>n\<close> and every \<open>n\<close> by \<open>n\<close> boolean adjacency
  matrix that encodes exactly one Hamiltonian cycle \<open>c\<close> over the \<open>n\<close> positions,
  \<open>min_sub_tour\<close> returns that cycle: a tour that is \<open>c\<close> read from some start in one of
  the two directions, of length \<open>n\<close>, visiting every position exactly once.
\<close>
theorem min_sub_tour_hamiltonian_cycle:
  assumes "valid_matrix sol (length vs)" and cyc: "is_cycle sol (length vs) c"
    and len: "length c = length vs"
  shows "\<exists>t. min_sub_tour vs sol = Some t \<and> same_cycle t c
           \<and> length t = length vs \<and> distinct t \<and> set t = {..<length vs}"
proof -
  let ?it = "iter_tours_init vs sol"
  note I = iter_tours_init_props [of vs sol]
  from cyc have dc: "distinct c" "set c \<subseteq> {..<length vs}" by (auto simp: is_cycle_def)
  then have "card (set c) = card {..<length vs}" using len by (simp add: distinct_card)
  with dc have sc: "set c = {..<length vs}" by (intro card_subset_eq) simp_all
  show ?thesis
  proof (cases "length vs = 0")
    case True
    then have "min_sub_tour vs sol = Some []"
      using I(2) next_tour_None [of ?it] by (simp add: min_sub_tour_def)
    moreover from True len have "same_cycle [] c" by (simp add: same_cycle_def cycle_views_def)
    ultimately show ?thesis using True by simp
  next
    case False
    then have "unseen ?it \<noteq> {}" using I(2) by auto
    then obtain s where s: "new_node ?it = Some s"
      using new_node_None [of ?it] by (cases "new_node ?it") auto
    then have "s \<in> set c" using new_node_Some [OF s] I(2) sc by simp
    from next_tour_cycle [OF I(1) _ _ s this] cyc sc I
    obtain t it' where t: "next_tour ?it = Some (t, it')" "same_cycle t c" by auto
    from same_cycle_set [OF t(2)] have st: "set t = set c" "length t = length c" "distinct t"
      using dc by simp_all
    from next_tour_Some [OF t(1) I(1)] st sc I(2) have "unseen it' = {}" by simp
    then have "next_tour it' = None" by (simp add: next_tour_None)
    then have "tours_loop it' t = Some t" by (simp add: tours_loop.simps)
    with t(1) have "min_sub_tour vs sol = Some t" by (simp add: min_sub_tour_def)
    with t(2) st sc len show ?thesis by simp
  qed
qed

theorem min_sub_tour_hamiltonian_cycle_witness:
  "valid_matrix ring5 (length (example_vertices 5))
   \<and> is_cycle ring5 (length (example_vertices 5)) [0, 3, 1, 4, 2]
   \<and> length [0, 3, 1, 4, 2 :: nat] = length (example_vertices 5)
   \<and> min_sub_tour (example_vertices 5) ring5 = Some [0, 2, 4, 1, 3]
   \<and> same_cycle [0, 2, 4, 1, 3] [0, 3, 1, 4, 2]"
proof -
  have v: "valid_matrix ring5 (length (example_vertices 5))" by code_simp
  have c: "is_cycle ring5 (length (example_vertices 5)) [0, 3, 1, 4, 2]" by code_simp
  have l: "length [0, 3, 1, 4, 2 :: nat] = length (example_vertices 5)" by code_simp
  have r: "min_sub_tour (example_vertices 5) ring5 = Some [0, 2, 4, 1, 3]" by code_simp
  from min_sub_tour_hamiltonian_cycle [OF v c l] v c l r show ?thesis by auto
qed

text \<open>
  Claim C2. For every boolean adjacency matrix, \<open>min_sub_tour\<close> returns the shortest of the
  cycles \<open>ts\<close> it extracts, and among those of least length the one found first, which is
  the one with the lowest start (the starts of the extracted cycles increase strictly). In
  particular, for a matrix that encodes exactly two disjoint cycles \<open>c1\<close> and \<open>c2\<close> of
  sizes \<open>a\<close> and \<open>b\<close> with \<open>a + b = n\<close> and \<open>a, b \<ge> 3\<close>, it returns one of the two, of size
  \<open>min a b\<close>.
\<close>
theorem min_sub_tour_shortest_first_found:
  assumes "valid_matrix sol (length vs)"
  shows "\<exists>ts t. yields (iter_tours_init vs sol) ts \<and> min_sub_tour vs sol = Some t
      \<and> (ts = [] \<longrightarrow> t = []) \<and> (ts \<noteq> [] \<longrightarrow> first_shortest ts t)
      \<and> (\<forall>s \<in> set ts. length s = length t \<longrightarrow> hd t \<le> hd s)
      \<and> sorted_wrt (<) (map hd ts)
      \<and> (is_cycle sol (length vs) c1 \<and> is_cycle sol (length vs) c2
           \<and> set c1 \<inter> set c2 = {} \<and> length c1 + length c2 = length vs
           \<and> 3 \<le> length c1 \<and> 3 \<le> length c2
         \<longrightarrow> (same_cycle t c1 \<or> same_cycle t c2) \<and> length t = min (length c1) (length c2))"
proof -
  from min_sub_tour_general [of vs sol] obtain ts t where g:
    "yields (iter_tours_init vs sol) ts" "min_sub_tour vs sol = Some t"
    "ts = [] \<longrightarrow> t = []" "ts \<noteq> [] \<longrightarrow> first_shortest ts t"
    "\<forall>s \<in> set ts. length s = length t \<longrightarrow> hd t \<le> hd s"
    "sorted_wrt (<) (map hd ts)"
    by blast
  have "(same_cycle t c1 \<or> same_cycle t c2) \<and> length t = min (length c1) (length c2)"
    if h: "is_cycle sol (length vs) c1" "is_cycle sol (length vs) c2"
      "set c1 \<inter> set c2 = {}" "length c1 + length c2 = length vs"
      "3 \<le> length c1" "3 \<le> length c2"
  proof -
    from h(5,6) have "c1 \<noteq> []" "c2 \<noteq> []" by auto
    from two_cycles_result [OF h(1,2,3,4) this] g(2) show ?thesis by auto
  qed
  with g show ?thesis by blast
qed

theorem min_sub_tour_shortest_first_found_witness:
  "valid_matrix two_rings7 (length (example_vertices 7))
   \<and> is_cycle two_rings7 (length (example_vertices 7)) [0, 2, 4, 6]
   \<and> is_cycle two_rings7 (length (example_vertices 7)) [1, 3, 5]
   \<and> yields (iter_tours_init (example_vertices 7) two_rings7) [[0, 2, 4, 6], [1, 3, 5]]
   \<and> min_sub_tour (example_vertices 7) two_rings7 = Some [1, 3, 5]
   \<and> first_shortest [[0, 2, 4, 6], [1, 3, 5]] [1, 3, 5]
   \<and> same_cycle [1, 3, 5] [1, 3, 5]
   \<and> length [1, 3, 5 :: nat] = min (length [0, 2, 4, 6 :: nat]) (length [1, 3, 5 :: nat])"
proof -
  let ?vs = "example_vertices 7"
  have v: "valid_matrix two_rings7 (length ?vs)" by code_simp
  have c1: "is_cycle two_rings7 (length ?vs) [0, 2, 4, 6]" by code_simp
  have c2: "is_cycle two_rings7 (length ?vs) [1, 3, 5]" by code_simp
  have y: "yields (iter_tours_init ?vs two_rings7) [[0, 2, 4, 6], [1, 3, 5]]" by code_simp
  have r: "min_sub_tour ?vs two_rings7 = Some [1, 3, 5]" by code_simp
  have d: "set [0, 2, 4, 6 :: nat] \<inter> set [1, 3, 5] = {}"
    "length [0, 2, 4, 6 :: nat] + length [1, 3, 5 :: nat] = length ?vs"
    by (simp_all add: example_vertices_def)
  from min_sub_tour_shortest_first_found [OF v, of "[0, 2, 4, 6]" "[1, 3, 5]"]
  obtain ts t where g: "yields (iter_tours_init ?vs two_rings7) ts"
    "min_sub_tour ?vs two_rings7 = Some t" "ts \<noteq> [] \<longrightarrow> first_shortest ts t"
    "is_cycle two_rings7 (length ?vs) [0, 2, 4, 6] \<and> is_cycle two_rings7 (length ?vs) [1, 3, 5]
           \<and> set [0, 2, 4, 6 :: nat] \<inter> set [1, 3, 5] = {}
           \<and> length [0, 2, 4, 6 :: nat] + length [1, 3, 5 :: nat] = length ?vs
           \<and> 3 \<le> length [0, 2, 4, 6 :: nat] \<and> 3 \<le> length [1, 3, 5 :: nat]
         \<longrightarrow> (same_cycle t [0, 2, 4, 6] \<or> same_cycle t [1, 3, 5])
             \<and> length t = min (length [0, 2, 4, 6 :: nat]) (length [1, 3, 5 :: nat])"
    by blast
  from g(1) y have ts: "ts = [[0, 2, 4, 6], [1, 3, 5]]" by (rule yields_unique)
  from g(2) r have t: "t = [1, 3, 5]" by simp
  from g(4) c1 c2 d have "(same_cycle t [0, 2, 4, 6] \<or> same_cycle t [1, 3, 5])
      \<and> length t = min (length [0, 2, 4, 6 :: nat]) (length [1, 3, 5 :: nat])" by simp
  moreover have "\<not> same_cycle [1, 3, 5] [0, 2, 4, 6]" by (auto dest: same_cycle_set)
  ultimately have "same_cycle [1, 3, 5] [1, 3, 5]" using t by auto
  with v c1 c2 y r g(3) ts t show ?thesis by simp
qed

text \<open>
  Claim C5. \<open>min_sub_tour\<close> returns on every vertex list and every boolean adjacency
  matrix, whatever the number of true entries of a row: the iterator yields at most \<open>n\<close>
  tours, each of at most \<open>n\<close> vertices; a walk with counter \<open>l\<close> adds at most \<open>l\<close> vertices;
  it ends at once at a vertex that has no unseen adjacent neighbour; and the iterator runs
  dry, which ends the outer loop, exactly when every vertex has been seen.
\<close>
theorem min_sub_tour_terminates:
  assumes "valid_matrix sol (length vs)"
  shows "(\<exists>t. min_sub_tour vs sol = Some t)
     \<and> (\<exists>ts. yields (iter_tours_init vs sol) ts \<and> length ts \<le> length vs
            \<and> (\<forall>w \<in> set ts. length w \<le> length vs))
     \<and> length (fst (next_tour_loop it node l acc)) \<le> length acc + l
     \<and> ((\<forall>v < count it. \<not> (row (solution it) node ! v \<and> \<not> (seen it)[node := True] ! v))
          \<longrightarrow> next_tour_loop it node (Suc l) acc
                = (acc @ [node], it\<lparr>seen := (seen it)[node := True]\<rparr>))
     \<and> (next_tour it = None \<longleftrightarrow> (\<forall>i < count it. seen it ! i))"
proof -
  from min_sub_tour_general [of vs sol] obtain ts t where g:
    "yields (iter_tours_init vs sol) ts" "min_sub_tour vs sol = Some t"
    "\<forall>s \<in> set ts. s \<noteq> [] \<and> distinct s \<and> set s \<subseteq> {..<length vs} \<and> length s \<le> length vs"
    "sum_list (map length ts) = length vs"
    by blast
  from g(3) have "length ts \<le> sum_list (map length ts)"
    by (intro length_le_sum_list) simp
  with g(4) have outer: "length ts \<le> length vs" by simp
  have early: "next_tour_loop it node (Suc l) acc
      = (acc @ [node], it\<lparr>seen := (seen it)[node := True]\<rparr>)"
    if "\<forall>v < count it. \<not> (row (solution it) node ! v \<and> \<not> (seen it)[node := True] ! v)"
  proof -
    from that have "best_next (mark it node) node = None"
      by (simp add: best_next_None_iff) (simp add: mark_def)
    then show ?thesis by (simp add: next_tour_loop_Suc) (simp add: mark_def)
  qed
  have exit: "next_tour it = None \<longleftrightarrow> (\<forall>i < count it. seen it ! i)"
    by (simp add: next_tour_None unseen_empty_iff)
  from g(1,2,3) outer early exit next_tour_loop_length [of it node l acc]
  show ?thesis by blast
qed

theorem min_sub_tour_terminates_witness:
  "valid_matrix star5 (length (example_vertices 5))
   \<and> min_sub_tour (example_vertices 5) star5 = Some [2]
   \<and> yields (iter_tours_init (example_vertices 5) star5) [[0, 1], [2], [3], [4]]
   \<and> next_tour_loop star5_state 1 (Suc 3) [0]
        = ([0, 1], star5_state\<lparr>seen := (seen star5_state)[1 := True]\<rparr>)
   \<and> next_tour (star5_state\<lparr>seen := replicate 5 True\<rparr>) = None"
proof -
  have v: "valid_matrix star5 (length (example_vertices 5))" by code_simp
  have r: "min_sub_tour (example_vertices 5) star5 = Some [2]" by code_simp
  have y: "yields (iter_tours_init (example_vertices 5) star5) [[0, 1], [2], [3], [4]]"
    by code_simp
  have stop: "list_all (\<lambda>v. \<not> (row (solution star5_state) 1 ! v
      \<and> \<not> (seen star5_state)[1 := True] ! v)) [0..<count star5_state]"
    by code_simp
  have c: "count star5_state = 5" by code_simp
  from stop have stop': "\<forall>v < count star5_state.
      \<not> (row (solution star5_state) 1 ! v \<and> \<not> (seen star5_state)[1 := True] ! v)"
    by (simp add: list_all_iff)
  have all_seen: "list_all (\<lambda>i. seen (star5_state\<lparr>seen := replicate 5 True\<rparr>) ! i)
      [0..<count (star5_state\<lparr>seen := replicate 5 True\<rparr>)]"
    by code_simp
  then have all_seen': "\<forall>i < count (star5_state\<lparr>seen := replicate 5 True\<rparr>).
      seen (star5_state\<lparr>seen := replicate 5 True\<rparr>) ! i"
    by (simp add: list_all_iff)
  from min_sub_tour_terminates [OF v, of star5_state 1 3 "[0]"] stop'
  have e: "next_tour_loop star5_state 1 (Suc 3) [0]
        = ([0, 1], star5_state\<lparr>seen := (seen star5_state)[1 := True]\<rparr>)"
    by simp
  from min_sub_tour_terminates [OF v, of "star5_state\<lparr>seen := replicate 5 True\<rparr>" 0 0 "[]"]
    all_seen'
  have x: "next_tour (star5_state\<lparr>seen := replicate 5 True\<rparr>) = None"
    by blast
  from v r y e x show ?thesis by simp
qed

text \<open>
  Claim C10. For every vertex list of size \<open>n\<close> and every boolean adjacency matrix, the tour
  \<open>min_sub_tour\<close> returns has pairwise distinct entries, each a position below \<open>n\<close>, and
  at most \<open>n\<close> of them; an empty vertex list yields the empty tour.
\<close>
theorem min_sub_tour_distinct_in_range:
  assumes "valid_matrix sol (length vs)"
  shows "\<exists>t. min_sub_tour vs sol = Some t \<and> distinct t \<and> (\<forall>x \<in> set t. x < length vs)
           \<and> length t \<le> length vs \<and> (vs = [] \<longrightarrow> t = [])"
proof -
  from min_sub_tour_general [of vs sol] obtain ts t where g:
    "min_sub_tour vs sol = Some t" "ts = [] \<longrightarrow> t = []" "ts \<noteq> [] \<longrightarrow> first_shortest ts t"
    "\<forall>s \<in> set ts. s \<noteq> [] \<and> distinct s \<and> set s \<subseteq> {..<length vs} \<and> length s \<le> length vs"
    by blast
  have "distinct t \<and> set t \<subseteq> {..<length vs} \<and> length t \<le> length vs"
  proof (cases "ts = []")
    case True
    with g(2) show ?thesis by simp
  next
    case False
    with g(3) have "t \<in> set ts" by (auto simp: first_shortest_def)
    with g(4) show ?thesis by blast
  qed
  moreover have "t = []" if "vs = []"
    using calculation that by simp
  ultimately show ?thesis using g(1) by auto
qed

theorem min_sub_tour_distinct_in_range_witness:
  "valid_matrix star5 (length (example_vertices 5))
   \<and> min_sub_tour (example_vertices 5) star5 = Some [2]
   \<and> distinct [2 :: nat] \<and> length [2 :: nat] \<le> length (example_vertices 5)
   \<and> valid_matrix (matrix_new 0 False) (length ([] :: int vertex list))
   \<and> min_sub_tour ([] :: int vertex list) (matrix_new 0 False) = Some []"
proof -
  have v: "valid_matrix star5 (length (example_vertices 5))" by code_simp
  have r: "min_sub_tour (example_vertices 5) star5 = Some [2]" by code_simp
  have v0: "valid_matrix (matrix_new 0 False) (length ([] :: int vertex list))" by code_simp
  from min_sub_tour_distinct_in_range [OF v0]
  have r0: "min_sub_tour ([] :: int vertex list) (matrix_new 0 False) = Some []" by auto
  from min_sub_tour_distinct_in_range [OF v] v r v0 r0 show ?thesis
    by (simp add: example_vertices_def)
qed

section \<open>The model builder\<close>

subsection \<open>Reading and writing the matrix\<close>

lemma flat_index_less:
  assumes "a < n" "b < (n::nat)"
  shows "a * n + b < n * n"
proof -
  have "a * n + b < a * n + n" using assms by simp
  also have "\<dots> = Suc a * n" by simp
  also have "\<dots> \<le> n * n" using assms by (simp only: mult_le_mono1 Suc_leI)
  finally show ?thesis .
qed

lemma flat_index_inj:
  assumes "b < n" "j < (n::nat)" "a * n + b = i * n + j"
  shows "a = i \<and> b = j"
proof -
  have "(a * n + b) mod n = b" "(i * n + j) mod n = j" using assms(1,2) by simp_all
  with assms(3) have bj: "b = j" by metis
  with assms(3) have "a * n = i * n" by simp
  with assms(2) have "a = i" by simp
  with bj show ?thesis by simp
qed

lemma at_flat:
  assumes "valid_matrix m n" "a < n" "b < n"
  shows "entry m a b = buffer m ! (a * n + b)"
proof -
  from assms have "a * n + b < length (buffer m)"
    by (simp add: valid_matrix_def flat_index_less)
  with assms show ?thesis
    by (simp add: entry_def row_def matrix_size_def valid_matrix_def)
qed

lemma valid_row_update [simp]: "valid_matrix (row_update m i j x) n = valid_matrix m n"
  by (simp add: valid_matrix_def row_update_def)

lemma at_row_update:
  assumes "valid_matrix m n" "i < n" "j < n" "a < n" "b < n"
  shows "entry (row_update m i j x) a b = (if a = i \<and> b = j then x else entry m a b)"
proof -
  have v: "valid_matrix (row_update m i j x) n" using assms by simp
  have l: "i * n + j < length (buffer m)"
    using assms by (simp add: valid_matrix_def flat_index_less)
  have b: "buffer (row_update m i j x) = (buffer m)[i * n + j := x]"
    using assms by (simp add: row_update_def matrix_size_def valid_matrix_def)
  show ?thesis
  proof (cases "a = i \<and> b = j")
    case True
    with l show ?thesis unfolding at_flat [OF v assms(4,5)] b by simp
  next
    case False
    with assms have "a * n + b \<noteq> i * n + j" using flat_index_inj [of b n j a i] by auto
    then show ?thesis
      unfolding at_flat [OF v assms(4,5)] at_flat [OF assms(1,4,5)] b using False by auto
  qed
qed

lemma valid_matrix_new [simp]: "valid_matrix (matrix_new n d) n"
  by (simp add: valid_matrix_def matrix_new_def)

lemma at_matrix_new: "a < n \<Longrightarrow> b < n \<Longrightarrow> entry (matrix_new n d) a b = d"
proof -
  assume ab: "a < n" "b < n"
  have "entry (matrix_new n d) a b = buffer (matrix_new n d) ! (a * n + b)"
    using ab by (intro at_flat) simp_all
  also have "\<dots> = d" using flat_index_less [OF ab] by (simp add: matrix_new_def)
  finally show ?thesis .
qed

subsection \<open>The invariant of \<open>add_vars\<close>\<close>

lemma add_vars_body_inv:
  assumes inv: "vars_inv cost vs m0 L st" and ok: "pairs_ok (length vs) L"
    and uw: "u < w" "w < length vs" "(u, w) \<notin> set L"
  shows "vars_inv cost vs m0 (L @ [(u, w)]) (add_vars_body cost vs u w st)"
    and "pairs_ok (length vs) (L @ [(u, w)])"
proof -
  let ?n = "length vs"
  obtain X m where st: "st = (X, m)" by (cases st)
  let ?x = "Var (length (model_vars m))"
  let ?X = "row_update (row_update X u w ?x) w u ?x"
  let ?m = "m\<lparr>model_vars := model_vars m @ [edge_attrs cost vs (u, w)]\<rparr>"
  have body: "add_vars_body cost vs u w st = (?X, ?m)"
    by (simp add: st add_vars_body_def add_edge_def addVar_def edge_attrs_def Let_def)
  from inv st have v: "valid_matrix X ?n"
    and mv: "model_vars m = model_vars m0 @ map (edge_attrs cost vs) L"
    and mc: "model_constrs m = model_constrs m0"
    and old: "\<And>k. k < length L \<Longrightarrow>
        entry X (fst (L ! k)) (snd (L ! k)) = Var (length (model_vars m0) + k) \<and>
        entry X (snd (L ! k)) (fst (L ! k)) = Var (length (model_vars m0) + k)"
    and null: "\<And>a b. a < ?n \<Longrightarrow> b < ?n \<Longrightarrow> (a, b) \<notin> set L \<Longrightarrow> (b, a) \<notin> set L
        \<Longrightarrow> entry X a b = Null_var"
    by (simp_all add: vars_inv_def)
  from uw have un: "u < ?n" by simp
  have E: "entry ?X a b = (if (a = u \<and> b = w) \<or> (a = w \<and> b = u) then ?x else entry X a b)"
    if "a < ?n" "b < ?n" for a b
    using that v un uw by (simp add: at_row_update)
  have len: "length (model_vars m) = length (model_vars m0) + length L" using mv by simp
  show ok': "pairs_ok ?n (L @ [(u, w)])" using ok uw by (simp add: pairs_ok_def)
  have "entry ?X (fst ((L @ [(u, w)]) ! k)) (snd ((L @ [(u, w)]) ! k))
          = Var (length (model_vars m0) + k) \<and>
        entry ?X (snd ((L @ [(u, w)]) ! k)) (fst ((L @ [(u, w)]) ! k))
          = Var (length (model_vars m0) + k)"
    if k: "k < length (L @ [(u, w)])" for k
  proof (cases "k < length L")
    case True
    let ?p = "L ! k"
    from True have mem: "?p \<in> set L" by simp
    with ok have lt: "fst ?p < snd ?p" "snd ?p < ?n" by (simp_all add: pairs_ok_def)
    then have f: "fst ?p < ?n" by simp
    from mem uw(3) have ne: "?p \<noteq> (u, w)" by auto
    then have n1: "\<not> (fst ?p = u \<and> snd ?p = w)" by (cases ?p) auto
    from lt uw(1) have n2: "\<not> (fst ?p = w \<and> snd ?p = u)" by auto
    from n1 n2 have "entry ?X (fst ?p) (snd ?p) = entry X (fst ?p) (snd ?p)"
      "entry ?X (snd ?p) (fst ?p) = entry X (snd ?p) (fst ?p)"
      using E [OF f lt(2)] E [OF lt(2) f] by auto
    with old [OF True] True show ?thesis by (simp add: nth_append)
  next
    case False
    with k have "k = length L" by simp
    then show ?thesis using E [OF un uw(2)] E [OF uw(2) un] len by (simp add: nth_append)
  qed
  moreover have "entry ?X a b = Null_var"
    if "a < ?n" "b < ?n" "(a, b) \<notin> set (L @ [(u, w)])" "(b, a) \<notin> set (L @ [(u, w)])" for a b
    using that E [OF that(1,2)] null [of a b] by auto
  moreover have "model_vars ?m = model_vars m0 @ map (edge_attrs cost vs) (L @ [(u, w)])"
    using mv by simp
  ultimately show "vars_inv cost vs m0 (L @ [(u, w)]) (add_vars_body cost vs u w st)"
    unfolding body vars_inv_def using v mc by simp
qed

lemma add_vars_row_inv:
  assumes "vars_inv cost vs m0 L st" "pairs_ok (length vs) L" "distinct ws"
    "\<forall>w \<in> set ws. u < w \<and> w < length vs \<and> (u, w) \<notin> set L"
  shows "vars_inv cost vs m0 (L @ map (Pair u) ws) (fold (add_vars_body cost vs u) ws st)
         \<and> pairs_ok (length vs) (L @ map (Pair u) ws)"
  using assms
proof (induction ws arbitrary: L st)
  case Nil
  then show ?case by simp
next
  case (Cons w ws)
  from Cons.prems have w: "u < w" "w < length vs" "(u, w) \<notin> set L" by simp_all
  note S = add_vars_body_inv [OF Cons.prems(1,2) w]
  have "vars_inv cost vs m0 ((L @ [(u, w)]) @ map (Pair u) ws)
          (fold (add_vars_body cost vs u) ws (add_vars_body cost vs u w st))
        \<and> pairs_ok (length vs) ((L @ [(u, w)]) @ map (Pair u) ws)"
    using Cons.prems by (intro Cons.IH S) auto
  then show ?case by simp
qed

lemma add_vars_rows_inv:
  assumes "vars_inv cost vs m0 L st" "pairs_ok (length vs) L" "distinct us"
    "\<forall>u \<in> set us. \<forall>w. (u, w) \<notin> set L"
  shows "vars_inv cost vs m0 (L @ concat (map (\<lambda>u. map (Pair u) [Suc u..<length vs]) us))
           (fold (\<lambda>u. fold (add_vars_body cost vs u) [Suc u..<length vs]) us st)
         \<and> pairs_ok (length vs) (L @ concat (map (\<lambda>u. map (Pair u) [Suc u..<length vs]) us))"
  using assms
proof (induction us arbitrary: L st)
  case Nil
  then show ?case by simp
next
  case (Cons u us)
  let ?row = "map (Pair u) [Suc u..<length vs]"
  have R: "vars_inv cost vs m0 (L @ ?row) (fold (add_vars_body cost vs u) [Suc u..<length vs] st)
      \<and> pairs_ok (length vs) (L @ ?row)"
    using Cons.prems by (intro add_vars_row_inv) auto
  have "vars_inv cost vs m0 ((L @ ?row) @ concat (map (\<lambda>u. map (Pair u) [Suc u..<length vs]) us))
          (fold (\<lambda>u. fold (add_vars_body cost vs u) [Suc u..<length vs]) us
             (fold (add_vars_body cost vs u) [Suc u..<length vs] st))
        \<and> pairs_ok (length vs) ((L @ ?row) @ concat (map (\<lambda>u. map (Pair u) [Suc u..<length vs]) us))"
    using Cons.prems R by (intro Cons.IH) auto
  then show ?case by simp
qed

lemma add_vars_inv:
  "vars_inv cost vs m0 (all_pairs (length vs)) (add_vars cost vs m0)
   \<and> pairs_ok (length vs) (all_pairs (length vs))"
proof -
  have "vars_inv cost vs m0 [] (matrix_new (length vs) Null_var, m0)"
    by (simp add: vars_inv_def at_matrix_new)
  moreover have "pairs_ok (length vs) []" by (simp add: pairs_ok_def)
  ultimately show ?thesis
    using add_vars_rows_inv [of cost vs m0 "[]" _ "[0..<length vs]"]
    by (simp add: add_vars_def all_pairs_def)
qed

lemma set_all_pairs: "set (all_pairs n) = {(a, b). a < b \<and> b < n}"
  by (force simp: all_pairs_def)

lemma sum_below: "(\<Sum>i<n. i) = n * (n - 1) div (2::nat)"
proof (induction n)
  case 0
  show ?case by simp
next
  case (Suc n)
  have "n * (n - 1) + n * 2 = Suc n * n" by (cases n) simp_all
  then have "Suc n * n div 2 = (n * (n - 1) + n * 2) div 2" by (simp only:)
  also have "\<dots> = n * (n - 1) div 2 + n" by simp
  finally show ?case using Suc by simp
qed

lemma length_all_pairs: "length (all_pairs n) = n * (n - 1) div 2"
proof -
  have "length (all_pairs n) = (\<Sum>u \<leftarrow> [0..<n]. n - Suc u)"
    by (simp add: all_pairs_def length_concat comp_def)
  also have "\<dots> = (\<Sum>i<n. n - Suc i)"
    by (simp add: interv_sum_list_conv_sum_set_nat atLeast0LessThan)
  also have "\<dots> = (\<Sum>i<n. i)" by (rule sum.nat_diff_reindex)
  also have "\<dots> = n * (n - 1) div 2" by (rule sum_below)
  finally show ?thesis .
qed

lemma add_vars_entries:
  assumes "add_vars cost vs m0 = (X, m)"
  shows "valid_matrix X (length vs)"
    and "model_vars m = model_vars m0 @ map (edge_attrs cost vs) (all_pairs (length vs))"
    and "model_constrs m = model_constrs m0"
    and "\<And>u v. u < v \<Longrightarrow> v < length vs \<Longrightarrow>
          \<exists>k < length (all_pairs (length vs)). all_pairs (length vs) ! k = (u, v)
            \<and> entry X u v = Var (length (model_vars m0) + k)
            \<and> entry X v u = Var (length (model_vars m0) + k)"
    and "\<And>u. u < length vs \<Longrightarrow> entry X u u = Null_var"
proof -
  let ?n = "length vs"
  let ?L = "all_pairs ?n"
  from add_vars_inv [of cost vs m0] assms
  have inv: "vars_inv cost vs m0 ?L (X, m)" and ok: "pairs_ok ?n ?L" by simp_all
  from inv show "valid_matrix X ?n"
    "model_vars m = model_vars m0 @ map (edge_attrs cost vs) ?L"
    "model_constrs m = model_constrs m0"
    by (simp_all add: vars_inv_def)
  show "\<exists>k < length ?L. ?L ! k = (u, v)
            \<and> entry X u v = Var (length (model_vars m0) + k)
            \<and> entry X v u = Var (length (model_vars m0) + k)"
    if "u < v" "v < ?n" for u v
  proof -
    from that have "(u, v) \<in> set ?L" by (simp add: set_all_pairs)
    then obtain k where k: "k < length ?L" "?L ! k = (u, v)" by (auto simp: in_set_conv_nth)
    from inv have "\<forall>k < length ?L.
        entry X (fst (?L ! k)) (snd (?L ! k)) = Var (length (model_vars m0) + k)
        \<and> entry X (snd (?L ! k)) (fst (?L ! k)) = Var (length (model_vars m0) + k)"
      by (simp add: vars_inv_def)
    with k(1) have "entry X (fst (?L ! k)) (snd (?L ! k)) = Var (length (model_vars m0) + k)
        \<and> entry X (snd (?L ! k)) (fst (?L ! k)) = Var (length (model_vars m0) + k)"
      by blast
    with k show ?thesis by auto
  qed
  show "entry X u u = Null_var" if "u < ?n" for u
    using inv that by (simp add: vars_inv_def set_all_pairs)
qed

lemma add_vars_injective:
  assumes "add_vars cost vs m0 = (X, m)"
    and "u < v" "v < length vs" "u' < v'" "v' < length vs" "entry X u v = entry X u' v'"
  shows "u = u' \<and> v = v'"
proof -
  from add_vars_entries(4) [OF assms(1,2,3)] obtain k where
    k: "all_pairs (length vs) ! k = (u, v)" "entry X u v = Var (length (model_vars m0) + k)"
    by blast
  from add_vars_entries(4) [OF assms(1,4,5)] obtain k' where
    k': "all_pairs (length vs) ! k' = (u', v')" "entry X u' v' = Var (length (model_vars m0) + k')"
    by blast
  from k(2) k'(2) assms(6) have "k = k'" by simp
  with k(1) k'(1) show ?thesis by simp
qed

lemma deg_expr_fold:
  "fold (\<lambda>v e. if u \<noteq> v then e @ [f v] else e) xs acc = acc @ map f (filter (\<lambda>v. u \<noteq> v) xs)"
  by (induction xs arbitrary: acc) simp_all

lemma addConstr_fold:
  "fold (\<lambda>u model. addConstr model (e u) s r) us m
     = m\<lparr>model_constrs := model_constrs m @ map (\<lambda>u. \<lparr>expr = e u, lin_sense = s, rhs = r\<rparr>) us\<rparr>"
  by (induction us arbitrary: m) (simp_all add: addConstr_def)

lemma add_constraint_deg_2_eq:
  "add_constraint_deg_2 n X m =
     m\<lparr>model_constrs := model_constrs m @
         map (\<lambda>u. \<lparr>expr = map (entry X u) (filter (\<lambda>v. u \<noteq> v) [0..<n]),
                   lin_sense = GRB_EQUAL, rhs = 2\<rparr>) [0..<n]\<rparr>"
proof -
  have "fold (\<lambda>v e. if u \<noteq> v then e @ [row X u ! v] else e) [0..<n] []
      = map (entry X u) (filter (\<lambda>v. u \<noteq> v) [0..<n])" for u
    using deg_expr_fold [of u "\<lambda>v. row X u ! v" "[0..<n]" "[]"] by (simp add: entry_def)
  then have "add_constraint_deg_2 n X m =
      fold (\<lambda>u model. addConstr model (map (entry X u) (filter (\<lambda>v. u \<noteq> v) [0..<n])) GRB_EQUAL 2)
        [0..<n] m"
    by (simp add: add_constraint_deg_2_def)
  then show ?thesis by (simp only: addConstr_fold)
qed

lemma add_vars_row_injective:
  assumes a: "add_vars cost vs m0 = (xs, m)"
    and b: "u < length vs" "v < length vs" "v' < length vs" "v \<noteq> u" "v' \<noteq> u"
    and e: "entry xs u v = entry xs u v'"
  shows "v = v'"
proof -
  note E = add_vars_entries [OF a]
  have sym: "entry xs i j = entry xs (min i j) (max i j) \<and> min i j < max i j \<and> max i j < length vs"
    if "i < length vs" "j < length vs" "i \<noteq> j" for i j
  proof (cases "i < j")
    case True
    with that show ?thesis by (simp add: min_def max_def)
  next
    case False
    with that have ji: "j < i" by simp
    from E(4) [OF ji that(1)] have "entry xs i j = entry xs j i" by auto
    with ji that show ?thesis by (simp add: min_def max_def)
  qed
  from sym [of u v] sym [of u v'] b e
  have "entry xs (min u v) (max u v) = entry xs (min u v') (max u v')"
    "min u v < max u v" "max u v < length vs" "min u v' < max u v'" "max u v' < length vs"
    by simp_all
  from add_vars_injective [OF a this(2,3,4,5,1)] b(4,5) show ?thesis
    by (auto simp: min_def max_def split: if_splits)
qed

subsection \<open>The claims on the model\<close>

text \<open>
  Claim C6. In the matrix \<open>add_vars\<close> builds, for all distinct positions \<open>u\<close> and \<open>v\<close> the
  entries \<open>[u][v]\<close> and \<open>[v][u]\<close> hold the same handle, of a variable this call added;
  different unordered pairs hold different handles; a diagonal entry holds the
  default-constructed handle; and the call adds \<open>n (n - 1) / 2\<close> variables, one per unordered
  pair and none for the diagonal.
\<close>
theorem add_vars_shared_handles:
  assumes "add_vars cost vs m0 = (xs, m)"
  shows "valid_matrix xs (length vs)
     \<and> (\<forall>u < length vs. \<forall>v < length vs. u \<noteq> v \<longrightarrow>
           entry xs u v = entry xs v u
           \<and> (\<exists>k. length (model_vars m0) \<le> k \<and> k < length (model_vars m) \<and> entry xs u v = Var k))
     \<and> (\<forall>u < length vs. entry xs u u = Null_var)
     \<and> (\<forall>u v u' v'. u < v \<and> v < length vs \<and> u' < v' \<and> v' < length vs
           \<and> entry xs u v = entry xs u' v' \<longrightarrow> u = u' \<and> v = v')
     \<and> length (model_vars m) = length (model_vars m0) + length vs * (length vs - 1) div 2"
proof -
  let ?n = "length vs"
  note E = add_vars_entries [OF assms]
  have len: "length (model_vars m) = length (model_vars m0) + ?n * (?n - 1) div 2"
    using E(2) by (simp add: length_all_pairs)
  have lt: "entry xs u v = entry xs v u
      \<and> (\<exists>k. length (model_vars m0) \<le> k \<and> k < length (model_vars m) \<and> entry xs u v = Var k)"
    if "u < v" "v < ?n" for u v
  proof -
    from E(4) [OF that] obtain k where k: "k < length (all_pairs ?n)"
      "entry xs u v = Var (length (model_vars m0) + k)"
      "entry xs v u = Var (length (model_vars m0) + k)" by blast
    then have "length (model_vars m0) + k < length (model_vars m)" using E(2) by simp
    with k show ?thesis by auto
  qed
  have sym: "entry xs u v = entry xs v u
      \<and> (\<exists>k. length (model_vars m0) \<le> k \<and> k < length (model_vars m) \<and> entry xs u v = Var k)"
    if "u < ?n" "v < ?n" "u \<noteq> v" for u v
  proof (cases "u < v")
    case True
    from lt [OF True that(2)] show ?thesis .
  next
    case False
    with that have "v < u" by simp
    from lt [OF this that(1)] show ?thesis by auto
  qed
  have inj: "u = u' \<and> v = v'"
    if "u < v \<and> v < ?n \<and> u' < v' \<and> v' < ?n \<and> entry xs u v = entry xs u' v'" for u v u' v'
    using add_vars_injective [OF assms, of u v u' v'] that by simp
  from E(1) E(5) sym inj len show ?thesis by blast
qed

theorem add_vars_shared_handles_witness:
  "add_vars example_cost (example_vertices 3) \<lparr>model_vars = [], model_constrs = []\<rparr>
     = (\<lparr>buffer = [Null_var, Var 0, Var 1, Var 0, Null_var, Var 2, Var 1, Var 2, Null_var],
         len = 3\<rparr>,
        \<lparr>model_vars =
           [\<lparr>lb = 0, ub = 1, obj = 3, vtype = GRB_BINARY, varname = ''x_1_2''\<rparr>,
            \<lparr>lb = 0, ub = 1, obj = 4, vtype = GRB_BINARY, varname = ''x_1_3''\<rparr>,
            \<lparr>lb = 0, ub = 1, obj = 5, vtype = GRB_BINARY, varname = ''x_2_3''\<rparr>],
          model_constrs = []\<rparr>)
   \<and> entry \<lparr>buffer = [Null_var, Var 0, Var 1, Var 0, Null_var, Var 2, Var 1, Var 2, Null_var],
         len = 3\<rparr> 0 2 = Var 1
   \<and> entry \<lparr>buffer = [Null_var, Var 0, Var 1, Var 0, Null_var, Var 2, Var 1, Var 2, Null_var],
         len = 3\<rparr> 2 0 = Var 1
   \<and> entry \<lparr>buffer = [Null_var, Var 0, Var 1, Var 0, Null_var, Var 2, Var 1, Var 2, Null_var],
         len = 3\<rparr> 1 1 = Null_var"
proof -
  let ?xs = "\<lparr>buffer = [Null_var, Var 0, Var 1, Var 0, Null_var, Var 2, Var 1, Var 2, Null_var],
         len = 3\<rparr>"
  have a: "add_vars example_cost (example_vertices 3) \<lparr>model_vars = [], model_constrs = []\<rparr>
     = (?xs,
        \<lparr>model_vars =
           [\<lparr>lb = 0, ub = 1, obj = 3, vtype = GRB_BINARY, varname = ''x_1_2''\<rparr>,
            \<lparr>lb = 0, ub = 1, obj = 4, vtype = GRB_BINARY, varname = ''x_1_3''\<rparr>,
            \<lparr>lb = 0, ub = 1, obj = 5, vtype = GRB_BINARY, varname = ''x_2_3''\<rparr>],
          model_constrs = []\<rparr>)"
    by code_simp
  have l: "length (example_vertices 3) = 3" by (simp add: example_vertices_def)
  from add_vars_shared_handles [OF a] l
  have "entry ?xs 0 2 = entry ?xs 2 0" "entry ?xs 1 1 = Null_var" by simp_all
  moreover have "entry ?xs 0 2 = Var 1"
    by (simp add: entry_def row_def matrix_size_def)
  ultimately show ?thesis using a by simp
qed

lemma add_vars_offdiag:
  assumes a: "add_vars cost vs m0 = (xs, m)" and b: "u < length vs" "v < length vs" "u \<noteq> v"
  shows "\<exists>k < length vs * (length vs - 1) div 2. entry xs u v = Var (length (model_vars m0) + k)"
proof -
  note E = add_vars_entries [OF a]
  show ?thesis
  proof (cases "u < v")
    case True
    from E(4) [OF True b(2)] show ?thesis by (auto simp: length_all_pairs)
  next
    case False
    with b have "v < u" by simp
    from E(4) [OF this b(1)] show ?thesis by (auto simp: length_all_pairs)
  qed
qed

lemma deg_expr_props:
  assumes a: "add_vars cost vs m0 = (xs, m)" and u: "u < length vs"
  shows "distinct (map (entry xs u) (filter (\<lambda>v. u \<noteq> v) [0..<length vs]))"
    and "\<forall>x \<in> set (map (entry xs u) (filter (\<lambda>v. u \<noteq> v) [0..<length vs])).
           \<exists>k < length vs * (length vs - 1) div 2. x = Var (length (model_vars m0) + k)"
proof -
  have "inj_on (entry xs u) (set (filter (\<lambda>v. u \<noteq> v) [0..<length vs]))"
    by (rule inj_onI) (use u add_vars_row_injective [OF a] in auto)
  then show "distinct (map (entry xs u) (filter (\<lambda>v. u \<noteq> v) [0..<length vs]))"
    by (simp add: distinct_map)
  show "\<forall>x \<in> set (map (entry xs u) (filter (\<lambda>v. u \<noteq> v) [0..<length vs])).
           \<exists>k < length vs * (length vs - 1) div 2. x = Var (length (model_vars m0) + k)"
    using add_vars_offdiag [OF a u] by auto
qed

lemma add_vars_attrs:
  assumes a: "add_vars cost vs m0 = (xs, m)" and b: "u < v" "v < length vs"
  shows "\<exists>k < length vs * (length vs - 1) div 2.
           entry xs u v = Var (length (model_vars m0) + k)
           \<and> entry xs v u = Var (length (model_vars m0) + k)
           \<and> model_vars m ! (length (model_vars m0) + k)
               = \<lparr>lb = 0, ub = 1, obj = cost (vs ! u) (vs ! v), vtype = GRB_BINARY,
                  varname = ''x_'' @ decimal (vertex_id (vs ! u)) @ ''_''
                            @ decimal (vertex_id (vs ! v))\<rparr>"
proof -
  note E = add_vars_entries [OF a]
  from E(4) [OF b] obtain k where k: "k < length (all_pairs (length vs))"
    "all_pairs (length vs) ! k = (u, v)"
    "entry xs u v = Var (length (model_vars m0) + k)"
    "entry xs v u = Var (length (model_vars m0) + k)" by auto
  have "model_vars m ! (length (model_vars m0) + k) = edge_attrs cost vs (u, v)"
    using k(1,2) by (simp add: E(2) nth_append)
  with k show ?thesis
    by (intro exI [of _ k]) (simp add: length_all_pairs edge_attrs_def)
qed

text \<open>
  The constructor of \<^verbatim>\<open>graph.hpp\<close> builds one tour: \<open>n\<close> degree constraints over the
  \<open>n (n - 1) / 2\<close> variables of one matrix, with the objective coefficients of the one cost
  function that \<^verbatim>\<open>add_edge\<close> uses.
\<close>
lemma graph_new_one_tour:
  assumes g: "g = graph_new cost vs"
  shows "length (model_constrs (model g)) = length vs
     \<and> (\<forall>u < length vs.
           model_constrs (model g) ! u
             = \<lparr>expr = map (entry (vars g) u) (filter (\<lambda>v. u \<noteq> v) [0..<length vs]),
                lin_sense = GRB_EQUAL, rhs = 2\<rparr>
           \<and> distinct (expr (model_constrs (model g) ! u))
           \<and> Null_var \<notin> set (expr (model_constrs (model g) ! u)))
     \<and> (\<forall>u < length vs. \<forall>v < length vs. u < v \<longrightarrow>
           (\<exists>k < length (model_vars (model g)).
              entry (vars g) u v = Var k \<and> entry (vars g) v u = Var k
              \<and> model_vars (model g) ! k
                  = \<lparr>lb = 0, ub = 1, obj = cost (vs ! u) (vs ! v), vtype = GRB_BINARY,
                     varname = ''x_'' @ decimal (vertex_id (vs ! u)) @ ''_''
                               @ decimal (vertex_id (vs ! v))\<rparr>))
     \<and> length (model_vars (model g)) = length vs * (length vs - 1) div 2"
proof -
  let ?n = "length vs"
  let ?m0 = "\<lparr>model_vars = [], model_constrs = []\<rparr>"
  obtain xs m where a: "add_vars cost vs ?m0 = (xs, m)" by (cases "add_vars cost vs ?m0")
  note E = add_vars_entries [OF a]
  let ?c = "\<lambda>u. \<lparr>expr = map (entry xs u) (filter (\<lambda>v. u \<noteq> v) [0..<?n]),
                 lin_sense = GRB_EQUAL, rhs = 2\<rparr>"
  from g a have gx: "vars g = xs" and gm: "model g = add_constraint_deg_2 ?n xs m"
    by (simp_all add: graph_new_def)
  have mc: "model_constrs (model g) = map ?c [0..<?n]"
    using E(3) by (simp add: gm add_constraint_deg_2_eq)
  have mv: "model_vars (model g) = map (edge_attrs cost vs) (all_pairs ?n)"
    using E(2) by (simp add: gm add_constraint_deg_2_eq)
  have c1: "length (model_constrs (model g)) = ?n" by (simp add: mc)
  have c2: "model_constrs (model g) ! u = ?c u" if "u < ?n" for u
    using that by (simp add: mc)
  have dist: "distinct (expr (?c u))" if u: "u < ?n" for u
  proof -
    have "inj_on (entry xs u) (set (filter (\<lambda>v. u \<noteq> v) [0..<?n]))"
      by (rule inj_onI) (use u add_vars_row_injective [OF a] in auto)
    then show ?thesis by (simp add: distinct_map)
  qed
  have nonnull: "Null_var \<notin> set (expr (?c u))" if u: "u < ?n" for u
  proof
    assume "Null_var \<in> set (expr (?c u))"
    then obtain v where v: "v < ?n" "u \<noteq> v" "entry xs u v = Null_var" by auto
    show False
    proof (cases "u < v")
      case True
      from E(4) [OF True v(1)] v(3) show False by auto
    next
      case False
      with v have "v < u" by simp
      from E(4) [OF this u] v(3) show False by auto
    qed
  qed
  have var: "\<exists>k < length (model_vars (model g)).
              entry (vars g) u v = Var k \<and> entry (vars g) v u = Var k
              \<and> model_vars (model g) ! k
                  = \<lparr>lb = 0, ub = 1, obj = cost (vs ! u) (vs ! v), vtype = GRB_BINARY,
                     varname = ''x_'' @ decimal (vertex_id (vs ! u)) @ ''_''
                               @ decimal (vertex_id (vs ! v))\<rparr>"
    if "u < v" "v < ?n" for u v
  proof -
    from E(4) [OF that] obtain k where k: "k < length (all_pairs ?n)" "all_pairs ?n ! k = (u, v)"
      "entry xs u v = Var k" "entry xs v u = Var k" by auto
    then have "model_vars (model g) ! k = edge_attrs cost vs (u, v)" by (simp add: mv)
    with k show ?thesis by (intro exI [of _ k]) (simp add: mv gx edge_attrs_def)
  qed
  have cnt: "length (model_vars (model g)) = ?n * (?n - 1) div 2"
    by (simp add: mv length_all_pairs)
  from c1 c2 dist nonnull var cnt show ?thesis by (simp add: gx)
qed

text \<open>
  Claim C4. In the model built for two tours, each tour has, for every vertex \<open>u\<close>, one linear
  equality constraint with right-hand side 2 over the variables incident to \<open>u\<close> in that
  tour's own matrix, and one binary variable per unordered pair whose objective coefficient is
  that tour's cost function at the pair. With \<open>N = n (n - 1) / 2\<close>: the model has \<open>2 n\<close>
  constraints and \<open>2 N\<close> variables; constraint \<open>u\<close> is the degree constraint of \<open>u\<close> in
  tour 1 and holds only the variables \<open>0, \<dots>, N - 1\<close>, whose coefficients are
  \<open>cost1\<close>; constraint \<open>n + u\<close> is the degree constraint of \<open>u\<close> in tour 2 and holds
  only the variables \<open>N, \<dots>, 2 N - 1\<close>, whose coefficients are \<open>cost2\<close>. So no degree
  constraint mixes the variables of the two tours.
\<close>
theorem graph2_new_degree_constraints:
  assumes g: "g = graph2_new cost1 cost2 vs k"
  shows "length (model_constrs (model2 g)) = 2 * length vs
     \<and> length (model_vars (model2 g)) = 2 * (length vs * (length vs - 1) div 2)
     \<and> (\<forall>u < length vs.
           model_constrs (model2 g) ! u
             = \<lparr>expr = map (entry (vars1 g) u) (filter (\<lambda>v. u \<noteq> v) [0..<length vs]),
                lin_sense = GRB_EQUAL, rhs = 2\<rparr>
           \<and> distinct (expr (model_constrs (model2 g) ! u))
           \<and> (\<forall>x \<in> set (expr (model_constrs (model2 g) ! u)).
                 \<exists>i < length vs * (length vs - 1) div 2. x = Var i))
     \<and> (\<forall>u < length vs.
           model_constrs (model2 g) ! (length vs + u)
             = \<lparr>expr = map (entry (vars2 g) u) (filter (\<lambda>v. u \<noteq> v) [0..<length vs]),
                lin_sense = GRB_EQUAL, rhs = 2\<rparr>
           \<and> distinct (expr (model_constrs (model2 g) ! (length vs + u)))
           \<and> (\<forall>x \<in> set (expr (model_constrs (model2 g) ! (length vs + u))).
                 \<exists>i < length vs * (length vs - 1) div 2.
                   x = Var (length vs * (length vs - 1) div 2 + i)))
     \<and> (\<forall>u < length vs. \<forall>v < length vs. u < v \<longrightarrow>
           (\<exists>i < length vs * (length vs - 1) div 2.
              entry (vars1 g) u v = Var i \<and> entry (vars1 g) v u = Var i
              \<and> model_vars (model2 g) ! i
                  = \<lparr>lb = 0, ub = 1, obj = cost1 (vs ! u) (vs ! v), vtype = GRB_BINARY,
                     varname = ''x_'' @ decimal (vertex_id (vs ! u)) @ ''_''
                               @ decimal (vertex_id (vs ! v))\<rparr>))
     \<and> (\<forall>u < length vs. \<forall>v < length vs. u < v \<longrightarrow>
           (\<exists>i < length vs * (length vs - 1) div 2.
              entry (vars2 g) u v = Var (length vs * (length vs - 1) div 2 + i)
              \<and> entry (vars2 g) v u = Var (length vs * (length vs - 1) div 2 + i)
              \<and> model_vars (model2 g) ! (length vs * (length vs - 1) div 2 + i)
                  = \<lparr>lb = 0, ub = 1, obj = cost2 (vs ! u) (vs ! v), vtype = GRB_BINARY,
                     varname = ''x_'' @ decimal (vertex_id (vs ! u)) @ ''_''
                               @ decimal (vertex_id (vs ! v))\<rparr>))"
proof -
  let ?n = "length vs"
  let ?N = "?n * (?n - 1) div 2"
  let ?m0 = "\<lparr>model_vars = [], model_constrs = []\<rparr>"
  obtain xs1 m1 where a1: "add_vars cost1 vs ?m0 = (xs1, m1)" by (cases "add_vars cost1 vs ?m0")
  obtain xs2 m2 where a2: "add_vars cost2 vs m1 = (xs2, m2)" by (cases "add_vars cost2 vs m1")
  note E1 = add_vars_entries [OF a1] and E2 = add_vars_entries [OF a2]
  let ?c = "\<lambda>xs u. \<lparr>expr = map (entry xs u) (filter (\<lambda>v. u \<noteq> v) [0..<?n]),
                 lin_sense = GRB_EQUAL, rhs = 2\<rparr>"
  from g a1 a2 have G: "vars1 g = xs1" "vars2 g = xs2"
    "model2 g = add_constraint_deg_2 ?n xs2 (add_constraint_deg_2 ?n xs1 m2)"
    by (simp_all add: graph2_new_def Let_def)
  have l1: "length (model_vars m1) = ?N" using E1(2) by (simp add: length_all_pairs)
  have mv: "model_vars (model2 g) = model_vars m2"
    by (simp add: G add_constraint_deg_2_eq)
  have mv2: "model_vars m2 = model_vars m1 @ map (edge_attrs cost2 vs) (all_pairs ?n)"
    using E2(2) .
  have mc: "model_constrs (model2 g) = map (?c xs1) [0..<?n] @ map (?c xs2) [0..<?n]"
    using E1(3) E2(3) by (simp add: G add_constraint_deg_2_eq)
  have c0: "length (model_constrs (model2 g)) = 2 * ?n" by (simp add: mc)
  have v0: "length (model_vars (model2 g)) = 2 * ?N"
    by (simp add: mv mv2 l1 length_all_pairs)
  have c1: "model_constrs (model2 g) ! u = ?c xs1 u" if "u < ?n" for u
    using that by (simp add: mc nth_append)
  have c2: "model_constrs (model2 g) ! (?n + u) = ?c xs2 u" if "u < ?n" for u
    using that by (simp add: mc nth_append)
  have d1: "distinct (expr (?c xs1 u)) \<and> (\<forall>x \<in> set (expr (?c xs1 u)). \<exists>i < ?N. x = Var i)"
    if "u < ?n" for u
    using deg_expr_props [OF a1 that] by simp
  have d2: "distinct (expr (?c xs2 u))
      \<and> (\<forall>x \<in> set (expr (?c xs2 u)). \<exists>i < ?N. x = Var (?N + i))"
    if "u < ?n" for u
    using deg_expr_props [OF a2 that] by (simp add: l1)
  have t1: "\<exists>i < ?N. entry (vars1 g) u v = Var i \<and> entry (vars1 g) v u = Var i
              \<and> model_vars (model2 g) ! i
                  = \<lparr>lb = 0, ub = 1, obj = cost1 (vs ! u) (vs ! v), vtype = GRB_BINARY,
                     varname = ''x_'' @ decimal (vertex_id (vs ! u)) @ ''_''
                               @ decimal (vertex_id (vs ! v))\<rparr>"
    if "u < v" "v < ?n" for u v
  proof -
    from add_vars_attrs [OF a1 that] obtain i where i: "i < ?N"
      "entry xs1 u v = Var i" "entry xs1 v u = Var i"
      "model_vars m1 ! i
         = \<lparr>lb = 0, ub = 1, obj = cost1 (vs ! u) (vs ! v), vtype = GRB_BINARY,
            varname = ''x_'' @ decimal (vertex_id (vs ! u)) @ ''_''
                      @ decimal (vertex_id (vs ! v))\<rparr>"
      by auto
    from i(1) l1 have "model_vars (model2 g) ! i = model_vars m1 ! i"
      by (simp add: mv mv2 nth_append)
    with i show ?thesis by (intro exI [of _ i]) (simp add: G(1,2))
  qed
  have t2: "\<exists>i < ?N. entry (vars2 g) u v = Var (?N + i) \<and> entry (vars2 g) v u = Var (?N + i)
              \<and> model_vars (model2 g) ! (?N + i)
                  = \<lparr>lb = 0, ub = 1, obj = cost2 (vs ! u) (vs ! v), vtype = GRB_BINARY,
                     varname = ''x_'' @ decimal (vertex_id (vs ! u)) @ ''_''
                               @ decimal (vertex_id (vs ! v))\<rparr>"
    if "u < v" "v < ?n" for u v
  proof -
    from add_vars_attrs [OF a2 that] l1 obtain i where i: "i < ?N"
      "entry xs2 u v = Var (?N + i)" "entry xs2 v u = Var (?N + i)"
      "model_vars m2 ! (?N + i)
         = \<lparr>lb = 0, ub = 1, obj = cost2 (vs ! u) (vs ! v), vtype = GRB_BINARY,
            varname = ''x_'' @ decimal (vertex_id (vs ! u)) @ ''_''
                      @ decimal (vertex_id (vs ! v))\<rparr>"
      by auto
    then show ?thesis by (intro exI [of _ i]) (simp add: G(1,2) mv)
  qed
  from c0 v0 c1 c2 d1 d2 t1 t2 show ?thesis by (simp add: G(1,2))
qed

theorem graph2_new_degree_constraints_witness:
  "model_constrs (model2 (graph2_new example_cost example_cost2 (example_vertices 3) 0))
     = [\<lparr>expr = [Var 0, Var 1], lin_sense = GRB_EQUAL, rhs = 2\<rparr>,
        \<lparr>expr = [Var 0, Var 2], lin_sense = GRB_EQUAL, rhs = 2\<rparr>,
        \<lparr>expr = [Var 1, Var 2], lin_sense = GRB_EQUAL, rhs = 2\<rparr>,
        \<lparr>expr = [Var 3, Var 4], lin_sense = GRB_EQUAL, rhs = 2\<rparr>,
        \<lparr>expr = [Var 3, Var 5], lin_sense = GRB_EQUAL, rhs = 2\<rparr>,
        \<lparr>expr = [Var 4, Var 5], lin_sense = GRB_EQUAL, rhs = 2\<rparr>]
   \<and> model_vars (model2 (graph2_new example_cost example_cost2 (example_vertices 3) 0))
     = [\<lparr>lb = 0, ub = 1, obj = 3, vtype = GRB_BINARY, varname = ''x_1_2''\<rparr>,
        \<lparr>lb = 0, ub = 1, obj = 4, vtype = GRB_BINARY, varname = ''x_1_3''\<rparr>,
        \<lparr>lb = 0, ub = 1, obj = 5, vtype = GRB_BINARY, varname = ''x_2_3''\<rparr>,
        \<lparr>lb = 0, ub = 1, obj = 2, vtype = GRB_BINARY, varname = ''x_1_2''\<rparr>,
        \<lparr>lb = 0, ub = 1, obj = 3, vtype = GRB_BINARY, varname = ''x_1_3''\<rparr>,
        \<lparr>lb = 0, ub = 1, obj = 6, vtype = GRB_BINARY, varname = ''x_2_3''\<rparr>]
   \<and> length (model_constrs (model2 (graph2_new example_cost example_cost2 (example_vertices 3) 0)))
       = 6"
proof -
  let ?g = "graph2_new example_cost example_cost2 (example_vertices 3) 0"
  have c: "model_constrs (model2 ?g)
     = [\<lparr>expr = [Var 0, Var 1], lin_sense = GRB_EQUAL, rhs = 2\<rparr>,
        \<lparr>expr = [Var 0, Var 2], lin_sense = GRB_EQUAL, rhs = 2\<rparr>,
        \<lparr>expr = [Var 1, Var 2], lin_sense = GRB_EQUAL, rhs = 2\<rparr>,
        \<lparr>expr = [Var 3, Var 4], lin_sense = GRB_EQUAL, rhs = 2\<rparr>,
        \<lparr>expr = [Var 3, Var 5], lin_sense = GRB_EQUAL, rhs = 2\<rparr>,
        \<lparr>expr = [Var 4, Var 5], lin_sense = GRB_EQUAL, rhs = 2\<rparr>]"
    by code_simp
  have v: "model_vars (model2 ?g)
     = [\<lparr>lb = 0, ub = 1, obj = 3, vtype = GRB_BINARY, varname = ''x_1_2''\<rparr>,
        \<lparr>lb = 0, ub = 1, obj = 4, vtype = GRB_BINARY, varname = ''x_1_3''\<rparr>,
        \<lparr>lb = 0, ub = 1, obj = 5, vtype = GRB_BINARY, varname = ''x_2_3''\<rparr>,
        \<lparr>lb = 0, ub = 1, obj = 2, vtype = GRB_BINARY, varname = ''x_1_2''\<rparr>,
        \<lparr>lb = 0, ub = 1, obj = 3, vtype = GRB_BINARY, varname = ''x_1_3''\<rparr>,
        \<lparr>lb = 0, ub = 1, obj = 6, vtype = GRB_BINARY, varname = ''x_2_3''\<rparr>]"
    by code_simp
  have l: "length (example_vertices 3) = 3" by (simp add: example_vertices_def)
  from graph2_new_degree_constraints [OF refl, of example_cost example_cost2 "example_vertices 3" 0] l
  have "length (model_constrs (model2 ?g)) = 6" by simp
  with c v show ?thesis by simp
qed

section \<open>Reading the result\<close>

lemma snapshot_valid: "valid_matrix (snapshot n edge) n"
proof -
  have "length (concat (map (\<lambda>u. map (f u) [0..<n]) us)) = length us * n" for f and us :: "nat list"
    by (induction us) simp_all
  from this [of "\<lambda>u v. u \<noteq> v \<and> edge u v" "[0..<n]"]
  show ?thesis by (simp add: valid_matrix_def snapshot_def)
qed

lemma concat_rows_nth:
  fixes f :: "nat \<Rightarrow> nat \<Rightarrow> 'a"
  assumes "a < m" "b < n"
  shows "concat (map (\<lambda>u. map (f u) [0..<n]) [0..<m]) ! (a * n + b) = f a b"
  using assms
proof (induction m)
  case 0
  then show ?case by simp
next
  case (Suc m)
  have len: "length (concat (map (\<lambda>u. map (f u) [0..<n]) [0..<m])) = m * n"
    by (induction m) simp_all
  show ?case
  proof (cases "a < m")
    case True
    then have "Suc a \<le> m" by simp
    then have "Suc a * n \<le> m * n" by (rule mult_le_mono1)
    with Suc.prems(2) have "a * n + b < m * n" by simp
    with Suc.IH [OF True Suc.prems(2)] show ?thesis by (simp add: nth_append len)
  next
    case False
    with Suc.prems(1) have "a = m" by simp
    with Suc.prems(2) show ?thesis by (simp add: nth_append len)
  qed
qed

lemma snapshot_entry:
  assumes "i < n" "j < n"
  shows "entry (snapshot n edge) i j \<longleftrightarrow> i \<noteq> j \<and> edge i j"
proof -
  have "entry (snapshot n edge) i j = buffer (snapshot n edge) ! (i * n + j)"
    using assms at_flat [OF snapshot_valid [of n edge] assms] by simp
  also have "\<dots> = (i \<noteq> j \<and> edge i j)"
    using concat_rows_nth [OF assms, of "\<lambda>u v. u \<noteq> v \<and> edge u v"] by (simp add: snapshot_def)
  finally show ?thesis .
qed

lemma selected_iff:
  "selected g res i j \<longleftrightarrow> (\<exists>k. entry (vars g) i j = Var k \<and> DoubleAttr_X res k > 0.5)"
  by (cases "row (vars g) i ! j") (simp_all add: selected_def entry_def)

text \<open>
  Claim C8. After \<^verbatim>\<open>solve()\<close> the run fails with the "no solution" condition exactly when
  the solution count is zero, otherwise with the "incomplete tour" condition exactly when the
  cycle extracted from the final variable values has fewer than \<open>n\<close> vertices, and otherwise
  returns the tour as a sequence of \<open>n\<close> vertices. The extracted cycle \<open>t\<close> is the result
  of \<^verbatim>\<open>min_sub_tour\<close> on the matrix that is true at \<open>(i, j)\<close> exactly when \<open>i \<noteq> j\<close> and the
  variable of the pair has a value above one half. Every exception returned carries the vertex
  list of the graph; the "no solution" exception carries no subtour, the "incomplete tour"
  exception carries \<open>t\<close> itself.
\<close>
theorem run_error_conditions:
  assumes "0 \<le> IntAttr_SolCount res"
  shows "\<exists>sol t r. valid_matrix sol (order g)
     \<and> (\<forall>i < order g. \<forall>j < order g.
           entry sol i j \<longleftrightarrow> i \<noteq> j
             \<and> (\<exists>k. entry (vars g) i j = Var k \<and> DoubleAttr_X res k > 0.5))
     \<and> min_sub_tour (vertices_g g) sol = Some t
     \<and> utils_min_sub_tour (vertices_g g) (selected g res) = Some t \<and> run g res = Some r
     \<and> (r = Inl (zero_solutions (vertices_g g)) \<longleftrightarrow> IntAttr_SolCount res = 0)
     \<and> (r = Inl (incomplete_tour (vertices_g g) t)
          \<longleftrightarrow> IntAttr_SolCount res \<noteq> 0 \<and> length t < order g)
     \<and> (r = Inr (map (\<lambda>v. vertices_g g ! v) t)
          \<longleftrightarrow> IntAttr_SolCount res \<noteq> 0 \<and> \<not> length t < order g)
     \<and> (\<forall>sol. r = Inr sol \<longrightarrow> length sol = order g)
     \<and> (\<forall>e. r = Inl e \<longrightarrow>
           vertices_e e = vertices_g g
           \<and> (IntAttr_SolCount res = 0 \<longrightarrow>
                subtour e = None \<and> what e = ''No integral solution could be found.'')
           \<and> (IntAttr_SolCount res \<noteq> 0 \<longrightarrow>
                subtour e = Some t \<and> length t < order g
                \<and> what e = ''Solution found, but leads to incomplete tour.''))"
proof -
  let ?vs = "vertices_g g"
  let ?sol = "snapshot (length ?vs) (selected g res)"
  from min_sub_tour_general [of ?vs ?sol]
  obtain ts t where t: "utils_min_sub_tour ?vs (selected g res) = Some t"
    and e: "ts = [] \<longrightarrow> t = []" and f: "ts \<noteq> [] \<longrightarrow> first_shortest ts t"
    and b: "\<forall>s \<in> set ts. length s \<le> length ?vs"
    unfolding utils_min_sub_tour_def by blast
  from t have t': "min_sub_tour ?vs ?sol = Some t" by (simp add: utils_min_sub_tour_def)
  have v: "valid_matrix ?sol (order g)" by (simp add: order_def snapshot_valid)
  have s: "\<forall>i < order g. \<forall>j < order g.
           entry ?sol i j \<longleftrightarrow> i \<noteq> j
             \<and> (\<exists>k. entry (vars g) i j = Var k \<and> DoubleAttr_X res k > 0.5)"
    by (simp add: order_def snapshot_entry selected_iff)
  have le: "length t \<le> order g"
  proof (cases "ts = []")
    case True
    with e show ?thesis by simp
  next
    case False
    with f have "t \<in> set ts" by (auto simp: first_shortest_def)
    with b show ?thesis by (simp add: order_def)
  qed
  have ne: "zero_solutions ?vs \<noteq> incomplete_tour ?vs t"
    by (simp add: zero_solutions_def incomplete_tour_def)
  have "\<exists>r. run g res = Some r
     \<and> (r = Inl (zero_solutions ?vs) \<longleftrightarrow> IntAttr_SolCount res = 0)
     \<and> (r = Inl (incomplete_tour ?vs t) \<longleftrightarrow> IntAttr_SolCount res \<noteq> 0 \<and> length t < order g)
     \<and> (r = Inr (map (\<lambda>v. ?vs ! v) t) \<longleftrightarrow> IntAttr_SolCount res \<noteq> 0 \<and> \<not> length t < order g)
     \<and> (\<forall>sol. r = Inr sol \<longrightarrow> length sol = order g)
     \<and> (\<forall>e. r = Inl e \<longrightarrow>
           vertices_e e = ?vs
           \<and> (IntAttr_SolCount res = 0 \<longrightarrow>
                subtour e = None \<and> what e = ''No integral solution could be found.'')
           \<and> (IntAttr_SolCount res \<noteq> 0 \<longrightarrow>
                subtour e = Some t \<and> length t < order g
                \<and> what e = ''Solution found, but leads to incomplete tour.''))"
  proof (cases "IntAttr_SolCount res = 0")
    case True
    then have "run g res = Some (Inl (zero_solutions ?vs))"
      by (simp add: run_def solve_def solution_count_def)
    with True ne show ?thesis by (auto simp: zero_solutions_def)
  next
    case False
    with assms have pos: "\<not> IntAttr_SolCount res \<le> 0" by simp
    show ?thesis
    proof (cases "length t < order g")
      case True
      then have "run g res = Some (Inl (incomplete_tour ?vs t))"
        using pos t
        by (simp add: run_def solve_def solution_count_def graph_solution_def graph_tour_def)
      with False True ne show ?thesis by (auto simp: incomplete_tour_def)
    next
      case nlt: False
      with le have eq: "length t = order g" by simp
      then have "run g res = Some (Inr (map (\<lambda>v. ?vs ! v) t))"
        using pos t
        by (simp add: run_def solve_def solution_count_def graph_solution_def graph_tour_def)
      with False nlt eq show ?thesis by auto
    qed
  qed
  with v s t t' show ?thesis by blast
qed

theorem run_error_conditions_witness:
  "run example_graph (example_result 0 1)
       = Some (Inl \<lparr>vertices_e = example_vertices 3, subtour = None,
                    what = ''No integral solution could be found.''\<rparr>)
   \<and> run example_graph (example_result 1 0)
       = Some (Inl \<lparr>vertices_e = example_vertices 3, subtour = Some [0],
                    what = ''Solution found, but leads to incomplete tour.''\<rparr>)
   \<and> run example_graph (example_result 1 1) = Some (Inr (example_vertices 3))
   \<and> utils_min_sub_tour (vertices_g example_graph) (selected example_graph (example_result 1 0))
       = Some [0]
   \<and> length [0 :: nat] < order example_graph"
proof -
  have vg: "vertices_g example_graph = example_vertices 3"
    by (simp add: example_graph_def graph_new_def split: prod.splits)
  have z: "run example_graph (example_result 0 1)
      = Some (Inl (zero_solutions (example_vertices 3)))"
    by (simp add: run_def solve_def solution_count_def example_result_def vg)
  have t: "utils_min_sub_tour (vertices_g example_graph)
      (selected example_graph (example_result 1 0)) = Some [0]"
    by code_simp
  have o: "order example_graph = 3" by (simp add: order_def vg example_vertices_def)
  have s: "0 \<le> IntAttr_SolCount (example_result 1 0)" by (simp add: example_result_def)
  from run_error_conditions [OF s, of example_graph] t o
  have i: "run example_graph (example_result 1 0)
      = Some (Inl (incomplete_tour (example_vertices 3) [0]))"
    by (auto simp: vg example_result_def)
  have c: "run example_graph (example_result 1 1) = Some (Inr (example_vertices 3))"
    by code_simp
  from z i c t o show ?thesis by (simp add: zero_solutions_def incomplete_tour_def)
qed

section \<open>The similarity constraint\<close>

lemma similarity_expr_pairs:
  "similarity_expr n xs1 xs2 = map (\<lambda>(u, v). (entry xs1 u v, entry xs2 u v)) (all_pairs n)"
  by (simp add: similarity_expr_def all_pairs_def map_concat comp_def entry_def)

lemma sum_list_indicator:
  assumes "\<forall>p \<in> set L. f p = (if P p then 1 else (0::real))"
  shows "sum_list (map f L) = real (length (filter P L))"
  using assms by (induction L) simp_all

lemma binary_value: "binary x \<Longrightarrow> value_of x v = 0 \<or> value_of x v = 1"
  by (cases v) (auto simp: value_of_def binary_def)

text \<open>
  Claim C3. The two-tour model has one constraint over products: the sum over all unordered
  pairs of the product of tour 1's and tour 2's variable for the pair is at least \<open>k\<close>.
  On a binary candidate its left-hand side is the number of shared edges, so a candidate
  with fewer than \<open>k\<close> shared edges violates it and one with exactly \<open>k\<close> satisfies it.
\<close>
theorem graph2_similarity_constraint:
  assumes g: "g = graph2_new cost1 cost2 vs k" and bin: "binary x"
  shows "\<exists>q. quad2 g = [q] \<and> quad_sense q = GRB_GREATER_EQUAL \<and> qrhs q = real k
     \<and> qexpr q = map (\<lambda>(u, v). (entry (vars1 g) u v, entry (vars2 g) u v)) (all_pairs (length vs))
     \<and> quad_value x q = real (shared_edges g x)
     \<and> (shared_edges g x < k \<longrightarrow> \<not> quad_satisfied x q)
     \<and> (shared_edges g x = k \<longrightarrow> quad_satisfied x q)"
proof -
  let ?m0 = "\<lparr>model_vars = [], model_constrs = []\<rparr>"
  obtain xs1 m1 where a1: "add_vars cost1 vs ?m0 = (xs1, m1)" by (cases "add_vars cost1 vs ?m0")
  obtain xs2 m2 where a2: "add_vars cost2 vs m1 = (xs2, m2)" by (cases "add_vars cost2 vs m1")
  let ?q = "\<lparr>qexpr = similarity_expr (length vs) xs1 xs2, quad_sense = GRB_GREATER_EQUAL,
            qrhs = real k\<rparr>"
  from g a1 a2 have G: "quad2 g = [?q]" "vars1 g = xs1" "vars2 g = xs2" "vertices2 g = vs"
    by (simp_all add: graph2_new_def Let_def)
  let ?f = "\<lambda>(u, v). value_of x (entry xs1 u v) * value_of x (entry xs2 u v)"
  let ?P = "\<lambda>(u, v). value_of x (entry xs1 u v) = 1 \<and> value_of x (entry xs2 u v) = 1"
  have "?f p = (if ?P p then 1 else 0)" for p
    using binary_value [OF bin, of "entry xs1 (fst p) (snd p)"]
      binary_value [OF bin, of "entry xs2 (fst p) (snd p)"]
    by (cases p) auto
  then have "sum_list (map ?f (all_pairs (length vs)))
      = real (length (filter ?P (all_pairs (length vs))))"
    by (intro sum_list_indicator) simp
  moreover have "quad_value x ?q = sum_list (map ?f (all_pairs (length vs)))"
    by (simp add: quad_value_def similarity_expr_pairs comp_def case_prod_unfold)
  ultimately have v: "quad_value x ?q = real (shared_edges g x)"
    by (simp add: shared_edges_def G)
  then have "shared_edges g x < k \<longrightarrow> \<not> quad_satisfied x ?q"
    "shared_edges g x = k \<longrightarrow> quad_satisfied x ?q"
    by (simp_all add: quad_satisfied_def)
  with v G show ?thesis by (simp add: similarity_expr_pairs)
qed

theorem graph2_similarity_constraint_witness:
  "binary example_candidate
   \<and> shared_edges (graph2_new example_cost example_cost (example_vertices 3) 2) example_candidate = 2
   \<and> quad_satisfied example_candidate
        (hd (quad2 (graph2_new example_cost example_cost (example_vertices 3) 2)))
   \<and> shared_edges (graph2_new example_cost example_cost (example_vertices 3) 3) example_candidate = 2
   \<and> \<not> quad_satisfied example_candidate
        (hd (quad2 (graph2_new example_cost example_cost (example_vertices 3) 3)))"
proof -
  let ?g = "\<lambda>k. graph2_new example_cost example_cost (example_vertices 3) k"
  have b: "binary example_candidate" by (simp add: binary_def example_candidate_def)
  have s2: "shared_edges (?g 2) example_candidate = 2" by code_simp
  have s3: "shared_edges (?g 3) example_candidate = 2" by code_simp
  from graph2_similarity_constraint [OF refl b, of example_cost example_cost "example_vertices 3" 2]
    s2
  have "quad_satisfied example_candidate (hd (quad2 (?g 2)))" by auto
  moreover
  from graph2_similarity_constraint [OF refl b, of example_cost example_cost "example_vertices 3" 3]
    s3
  have "\<not> quad_satisfied example_candidate (hd (quad2 (?g 3)))" by auto
  ultimately show ?thesis using b s2 s3 by simp
qed

section \<open>Reading vertices\<close>

lemma read_lines_Cons:
  "read_lines get4 filename (l # ls) acc =
     (if fst (extract_vertex get4 l vertex_default)
      then read_lines get4 filename ls (acc @ [snd (extract_vertex get4 l vertex_default)])
      else Inl (contains_invalid_data filename))"
  by (cases "extract_vertex get4 l (vertex_default :: 'a vertex)") simp

lemma read_lines_result:
  "read_lines get4 filename lines acc =
     (if \<exists>l \<in> set lines. \<not> fst (extract_vertex get4 l vertex_default)
      then Inl (contains_invalid_data filename)
      else Inr (acc @ map (\<lambda>l. snd (extract_vertex get4 l vertex_default)) lines))"
proof (induction lines arbitrary: acc)
  case Nil
  show ?case by simp
next
  case (Cons l ls)
  show ?case
    unfolding read_lines_Cons Cons by simp
qed

lemma read_result:
  "read get4 filename lines =
     (if \<exists>l \<in> set lines. \<not> fst (extract_vertex get4 l vertex_default)
      then Inl (contains_invalid_data filename)
      else if lines = [] then Inl (is_empty_or_missing filename)
      else Inr (map (\<lambda>l. snd (extract_vertex get4 l vertex_default)) lines))"
  by (simp add: read_def read_lines_result)

lemma extract_vertex_fails: "fst (extract_vertex get4 l v) \<longleftrightarrow> get4 l \<noteq> None"
  by (cases "get4 l") (auto simp: extract_vertex_def)

lemma extract_vertex_id: "vertex_id (snd (extract_vertex get4 l v)) = vertex_id v"
  by (simp add: extract_vertex_def split: option.splits)

text \<open>
  Claim C7, the part the code does not keep: every vertex \<open>read\<close> returns has the id
  \<^verbatim>\<open>SIZE_MAX\<close> of the default constructor, not a fresh id, so two records have equal
  ids. (\<open>read_result\<close> above is the part it keeps: which error is raised, and that a
  result has a vertex for every line.)
\<close>
theorem read_ids_not_fresh:
  assumes "read get4 filename lines = Inr vs"
  shows "length vs = length lines \<and> (\<forall>v \<in> set vs. vertex_id v = SIZE_MAX)
     \<and> (2 \<le> length lines \<longrightarrow> \<not> distinct (map vertex_id vs))"
proof -
  from assms have vs: "vs = map (\<lambda>l. snd (extract_vertex get4 l vertex_default)) lines"
    by (simp add: read_result split: if_splits)
  then have ids: "map vertex_id vs = replicate (length lines) SIZE_MAX"
    by (simp add: extract_vertex_id vertex_default_def comp_def map_replicate_const)
  then have "\<forall>v \<in> set vs. vertex_id v = SIZE_MAX"
    by (metis in_set_replicate image_eqI list.set_map)
  moreover have "\<not> distinct (map vertex_id vs)" if "2 \<le> length lines"
  proof -
    from that obtain k where "length lines = Suc (Suc k)"
      by (metis Suc_le_D numeral_2_eq_2 Suc_le_mono)
    with ids show ?thesis by simp
  qed
  ultimately show ?thesis using vs by simp
qed

theorem read_ids_not_fresh_witness:
  "read example_get4 ''points.txt'' [''0 0 1 1'', ''2 2 3 3'']
     = Inr [\<lparr>vertex_id = SIZE_MAX, x1 = 0, y1 = 0, x2 = 1, y2 = 1\<rparr>,
            \<lparr>vertex_id = SIZE_MAX, x1 = 2, y1 = 2, x2 = 3, y2 = 3\<rparr>]
   \<and> \<not> distinct (map vertex_id [\<lparr>vertex_id = SIZE_MAX, x1 = 0, y1 = 0, x2 = 1, y2 = (1::int)\<rparr>,
            \<lparr>vertex_id = SIZE_MAX, x1 = 2, y1 = 2, x2 = 3, y2 = 3\<rparr>])
   \<and> fst (vertex_new 1 0 0 1 (1::int)) = \<lparr>vertex_id = 1, x1 = 0, y1 = 0, x2 = 1, y2 = 1\<rparr>"
proof -
  have r: "read example_get4 ''points.txt'' [''0 0 1 1'', ''2 2 3 3'']
     = Inr [\<lparr>vertex_id = SIZE_MAX, x1 = 0, y1 = 0, x2 = 1, y2 = 1\<rparr>,
            \<lparr>vertex_id = SIZE_MAX, x1 = 2, y1 = 2, x2 = 3, y2 = 3\<rparr>]"
    by (simp add: read_def extract_vertex_def example_get4_def vertex_default_def)
  have n: "fst (vertex_new 1 0 0 1 (1::int)) = \<lparr>vertex_id = 1, x1 = 0, y1 = 0, x2 = 1, y2 = 1\<rparr>"
    by (simp add: vertex_new_def next_id_def)
  from read_ids_not_fresh [OF r] r n show ?thesis by simp
qed

end
